theory Spec2Isabelle
  imports Complex_Main "HOL-Library.Sublist" "HOL-Library.AList"
begin

section \<open>JavaScript values shared by the modules\<close>

text \<open>
  A JavaScript string is a sequence of UTF-16 code units; \<open>length\<close> counts code units,
  as \<^verbatim>\<open>s.length\<close> does. \<open>lit\<close> turns an ASCII literal of the source into its code units.
\<close>

type_synonym js_string = "nat list"

definition lit :: "string \<Rightarrow> js_string" where
  "lit s = map of_char s"

text \<open>\<^verbatim>\<open>s.includes(sub)\<close>: \<open>sub\<close> occurs in \<open>s\<close> as a contiguous run, at some start index.\<close>

fun js_includes :: "js_string \<Rightarrow> js_string \<Rightarrow> bool" where
  "js_includes [] sub = (sub = [])"
| "js_includes (c # cs) sub = (take (length sub) (c # cs) = sub \<or> js_includes cs sub)"

text \<open>The decimal rendering of a non-negative integer inside a template literal.\<close>

fun String_nat :: "nat \<Rightarrow> js_string" where
  "String_nat n = (if n < 10 then [48 + n] else String_nat (n div 10) @ [48 + n mod 10])"

declare String_nat.simps [simp del]

text \<open>
  A thrown value. \<open>Error m\<close> is an error object with message \<open>m\<close> (whatever its class);
  \<open>TypeError m\<close> is the engine's own error for a property read on \<^verbatim>\<open>undefined\<close>.
\<close>

datatype js_error = Error js_string | TypeError js_string

fun message :: "js_error \<Rightarrow> js_string" where
  "message (Error m) = m"
| "message (TypeError m) = m"

text \<open>The engine's error for reading a property of \<^verbatim>\<open>undefined\<close>.\<close>

definition cannot_read :: "js_string \<Rightarrow> js_error" where
  "cannot_read property =
     TypeError (lit ''Cannot read properties of undefined (reading '' @ [39] @
                property @ [39] @ lit '')'')"

text \<open>
  A number as \<^verbatim>\<open>Math.random()\<close> returns it: a double in the interval from 0 (inclusive) to 1
  (exclusive). Such a double is \<open>significand / 2 ^ scale\<close> with a significand of at most 53
  bits and a scale of at most 1074.
\<close>

record unit_double =
  significand :: nat
  scale :: nat

definition is_unit_double :: "unit_double \<Rightarrow> bool" where
  "is_unit_double r \<longleftrightarrow>
     significand r < 2 ^ 53 \<and> significand r < 2 ^ scale r \<and> scale r \<le> 1074"

text \<open>
  The arithmetic of doubles rounds an exact result to the nearest number with a significand
  of 53 bits, a tie to the one with the even significand. \<open>round_to_even s x\<close> rounds \<open>x\<close> to
  a multiple of \<open>2 ^ s\<close> in this way, \<open>excess_bits x\<close> is the number of bits that \<open>x\<close> has
  beyond 53, and \<open>to_double x\<close> is the double nearest to the integer \<open>x\<close>.
\<close>

definition round_to_even :: "nat \<Rightarrow> nat \<Rightarrow> nat" where
  "round_to_even s x =
     (let q = x div 2 ^ s; r = x mod 2 ^ s
      in (if 2 * r > 2 ^ s \<or> (2 * r = 2 ^ s \<and> odd q) then q + 1 else q) * 2 ^ s)"

function excess_bits :: "nat \<Rightarrow> nat" where
  "excess_bits x = (if x < 2 ^ 53 then 0 else Suc (excess_bits (x div 2)))"
  by pat_completeness auto
termination
  by (relation "measure id") auto

declare excess_bits.simps [simp del]

definition to_double :: "nat \<Rightarrow> nat" where
  "to_double x = round_to_even (excess_bits x) x"

text \<open>
  \<^verbatim>\<open>Math.floor(r * n)\<close> for a double \<open>r\<close> of the unit interval and a small positive integer
  \<open>n\<close>: the exact product is \<open>significand * n / 2 ^ scale\<close>, the multiplication rounds its
  numerator to a double (the product is not below \<open>r\<close>, so nothing underflows), and the
  floor of the quotient is exact.
\<close>

definition Math_floor_times :: "unit_double \<Rightarrow> nat \<Rightarrow> nat" where
  "Math_floor_times r n = to_double (significand r * n) div 2 ^ scale r"

section \<open>Session pool: browser\_init.js\<close>

type_synonym page = nat

record fingerprint =
  userAgent :: js_string
  viewport :: "nat \<times> nat"
  languages :: "js_string list"
  timezone :: js_string
  platform :: js_string
  webgl_vendor :: js_string
  webgl_renderer :: js_string

record page_data =
  uses :: nat
  created :: nat
  fingerprint :: fingerprint

text \<open>
  The module's variables. \<^verbatim>\<open>pagePool\<close> is a \<^verbatim>\<open>Map\<close>: an association list in insertion
  order, on which \<open>AList.update\<close> is \<^verbatim>\<open>set\<close> (in place for a present key, at the end for a
  new one) and \<open>AList.delete\<close> is \<^verbatim>\<open>delete\<close>. \<^verbatim>\<open>MAX_PAGE_USES\<close> is a module constant:
  it is computed once, when the module is loaded, and is kept here beside the variables.
  \<open>browserInstance\<close> holds when the variable is set and the browser is connected.
\<close>

record pool_state =
  MAX_PAGE_USES :: nat
  browserInstance :: bool
  pagePool :: "(page \<times> page_data) list"

definition MAX_PAGES :: nat where
  "MAX_PAGES = 3"

text \<open>
  Loading the module; \<open>r\<close> is the value of the one \<^verbatim>\<open>Math.random()\<close> call at line 23, and
  the ceiling is \<^verbatim>\<open>Math.floor(Math.random() * 6) + 10\<close>, computed in doubles.
\<close>

definition module_load :: "unit_double \<Rightarrow> pool_state" where
  "module_load r =
     \<lparr>MAX_PAGE_USES = Math_floor_times r 6 + 10, browserInstance = False, pagePool = []\<rparr>"

text \<open>
  What the browser answers while one page is created: whether \<^verbatim>\<open>puppeteer.launch\<close>
  rejects (asked only when no browser is connected), the page that \<^verbatim>\<open>browser.newPage\<close>
  and the set-up calls after it deliver or the error one of them rejects with, the clock,
  and the fingerprint \<^verbatim>\<open>generateFingerprint\<close> draws.
\<close>

record create_env =
  launch :: "js_error option"
  newPage :: "js_error + page"
  now :: nat
  fresh_fingerprint :: fingerprint

definition initBrowser :: "create_env \<Rightarrow> pool_state \<Rightarrow> js_error + pool_state" where
  "initBrowser e s =
     (if browserInstance s then Inr s
      else (case launch e of
              Some err \<Rightarrow> Inl err
            | None \<Rightarrow> Inr (s\<lparr>browserInstance := True\<rparr>)))"

text \<open>
  The two evictions of \<^verbatim>\<open>getPage\<close> (lines 265 to 280): every page that has reached the
  ceiling \<open>M\<close> is closed and deleted; then, if the pool is still full, the first key of
  the map, the page that was inserted first, is closed and deleted. \<^verbatim>\<open>page.close()\<close> has
  its errors caught.
\<close>

definition evict_pages :: "nat \<Rightarrow> (page \<times> page_data) list \<Rightarrow> (page \<times> page_data) list" where
  "evict_pages M pool =
     (let pool1 = filter (\<lambda>(p, d). \<not> uses d \<ge> M) pool
      in if length pool1 \<ge> MAX_PAGES
         then (case pool1 of
                 [] \<Rightarrow> []
               | (oldestPage, d) # rest \<Rightarrow> AList.delete oldestPage pool1)
         else pool1)"

text \<open>
  \<^verbatim>\<open>getPage\<close> returns the page or throws, and leaves the pool as it was at that moment:
  the evictions stay done when the creation after them fails.
\<close>

definition getPage :: "bool \<Rightarrow> create_env \<Rightarrow> pool_state \<Rightarrow> (js_error + page) \<times> pool_state" where
  "getPage forceNew e s =
     (case initBrowser e s of
        Inl err \<Rightarrow> (Inl err, s)
      | Inr s1 \<Rightarrow>
          (case (if forceNew then None
                 else find (\<lambda>(p, d). uses d < MAX_PAGE_USES s1) (pagePool s1)) of
             Some (p, d) \<Rightarrow>
               (Inr p, s1\<lparr>pagePool := AList.update p (d\<lparr>uses := uses d + 1\<rparr>) (pagePool s1)\<rparr>)
           | None \<Rightarrow>
               (let pool2 = evict_pages (MAX_PAGE_USES s1) (pagePool s1)
                in (case newPage e of
                      Inl err \<Rightarrow> (Inl err, s1\<lparr>pagePool := pool2\<rparr>)
                    | Inr p \<Rightarrow>
                        (Inr p,
                         s1\<lparr>pagePool :=
                              AList.update p
                                \<lparr>uses = 1, created = now e, fingerprint = fresh_fingerprint e\<rparr>
                                pool2\<rparr>)))))"

definition recyclePage :: "page \<Rightarrow> create_env \<Rightarrow> pool_state \<Rightarrow> (js_error + page) \<times> pool_state" where
  "recyclePage p e s = getPage True e (s\<lparr>pagePool := AList.delete p (pagePool s)\<rparr>)"

record page_stats =
  stat_uses :: nat
  maxUses :: nat
  shouldRecycle :: bool
  age :: "int option"

text \<open>\<open>t\<close> is \<^verbatim>\<open>Date.now()\<close>; a page the pool does not know has no \<^verbatim>\<open>age\<close> field.\<close>

definition getPageStats :: "nat \<Rightarrow> pool_state \<Rightarrow> page \<Rightarrow> page_stats" where
  "getPageStats t s p =
     (case map_of (pagePool s) p of
        None \<Rightarrow> \<lparr>stat_uses = 0, maxUses = MAX_PAGE_USES s, shouldRecycle = True, age = None\<rparr>
      | Some d \<Rightarrow>
          \<lparr>stat_uses = uses d, maxUses = MAX_PAGE_USES s,
           shouldRecycle = (uses d \<ge> MAX_PAGE_USES s),
           age = Some (int t - int (created d))\<rparr>)"

text \<open>
  \<^verbatim>\<open>closeBrowser\<close>: \<open>close_ok\<close> tells whether \<^verbatim>\<open>browserInstance.close()\<close> resolves; when it
  rejects the error is logged and the variable keeps the browser.
\<close>

definition closeBrowser :: "bool \<Rightarrow> pool_state \<Rightarrow> pool_state" where
  "closeBrowser close_ok s =
     (if browserInstance s
      then s\<lparr>pagePool := [], browserInstance := \<not> close_ok\<rparr>
      else s)"

text \<open>The handler of the browser's \<^verbatim>\<open>disconnected\<close> event.\<close>

definition disconnected :: "pool_state \<Rightarrow> pool_state" where
  "disconnected s = s\<lparr>browserInstance := False, pagePool := []\<rparr>"

text \<open>The states of the module in a process whose load drew \<open>r\<close>.\<close>

inductive reachable :: "unit_double \<Rightarrow> pool_state \<Rightarrow> bool" for r :: unit_double where
  loaded: "is_unit_double r \<Longrightarrow> reachable r (module_load r)"
| after_getPage: "reachable r s \<Longrightarrow> reachable r (snd (getPage forceNew e s))"
| after_recyclePage: "reachable r s \<Longrightarrow> reachable r (snd (recyclePage p e s))"
| after_closeBrowser: "reachable r s \<Longrightarrow> reachable r (closeBrowser close_ok s)"
| after_disconnected: "reachable r s \<Longrightarrow> reachable r (disconnected s)"

section \<open>Fetch protocol: fetch\_page.js\<close>

text \<open>
  What the page answers during one attempt, in the order the attempt asks:
  \<^verbatim>\<open>goto\<close> (an error, no response object, or a response with its status), \<^verbatim>\<open>title\<close>,
  \<^verbatim>\<open>handleCaptcha\<close> (which catches its own errors), \<^verbatim>\<open>content\<close>, and the lower-cased
  inner text of the body; then the browser's answers for the recycle of the block branch
  and for the recycle of the catch block. The delays, the wait for the challenge title to
  change (its timeout is caught and logged) and \<^verbatim>\<open>simulateHumanBehavior\<close> never throw.
\<close>

record attempt_obs =
  goto :: "js_error + nat option"
  title :: "js_error + js_string"
  captchaSolved :: bool
  content :: "js_error + js_string"
  bodyText :: "js_error + js_string"
  recycle_blocked :: create_env
  recycle_failed :: create_env

definition challenge_title :: "js_string \<Rightarrow> bool" where
  "challenge_title t =
     (js_includes t (lit ''Just a moment'') \<or> js_includes t (lit ''DDoS-Guard'') \<or>
      js_includes t (lit ''Cloudflare''))"

definition isBlocked :: "js_string \<Rightarrow> js_string \<Rightarrow> bool" where
  "isBlocked body html =
     (js_includes body (lit ''access denied for your ip'') \<or>
      js_includes body (lit ''your request was blocked'') \<or>
      js_includes body (lit ''rate limit exceeded'') \<or>
      js_includes body (lit ''too many requests from your ip'') \<or>
      (length html < 5000 \<and>
       (js_includes body (lit ''access denied'') \<or> js_includes body (lit ''blocked''))))"

definition page_not_found :: "js_string \<Rightarrow> js_error" where
  "page_not_found url = Error (lit ''Page not found: '' @ url)"

definition server_error :: "nat \<Rightarrow> js_error" where
  "server_error status = Error (lit ''Server error ('' @ String_nat status @ lit '')'')"

text \<open>
  The \<^verbatim>\<open>try\<close> block up to the block heuristic: the error it throws, or the HTML with
  the heuristic's verdict.
\<close>

definition try_body :: "js_string \<Rightarrow> attempt_obs \<Rightarrow> js_error + (js_string \<times> bool)" where
  "try_body url obs =
     (case goto obs of
        Inl err \<Rightarrow> Inl err
      | Inr response \<Rightarrow>
     (case title obs of
        Inl err \<Rightarrow> Inl err
      | Inr t \<Rightarrow>
     (case response of
        None \<Rightarrow> Inl (Error (lit ''No response received''))
      | Some status \<Rightarrow>
          if status = 404 then Inl (page_not_found url)
          else if status \<ge> 500 then Inl (server_error status)
          else if \<not> captchaSolved obs
            then Inl (Error (lit ''CAPTCHA detected but could not be solved''))
          else
     (case content obs of
        Inl err \<Rightarrow> Inl err
      | Inr html \<Rightarrow>
          if length html < 100 then Inl (Error (lit ''Page content too short or empty''))
          else
     (case bodyText obs of
        Inl err \<Rightarrow> Inl err
      | Inr body \<Rightarrow>
          if js_includes body (lit ''Enable JavaScript and cookies to continue'')
          then Inl (Error (lit ''Cloudflare challenge failed (JS disabled or detected)''))
          else Inr (html, isBlocked body html))))))"

record loop_vars =
  currentPage :: page
  wasRecycled :: bool
  lastError :: "js_error option"

datatype fetch_outcome = Returned js_string page bool | Threw js_error

datatype step = Done fetch_outcome | Continue loop_vars

text \<open>
  The \<^verbatim>\<open>catch\<close> block. Inside the loop \<open>attempt < retries\<close>, so the source's
  \<^verbatim>\<open>attempt < retries - 1\<close> is \<open>attempt + 1 < retries\<close>. An error of \<^verbatim>\<open>recyclePage\<close> here
  leaves \<^verbatim>\<open>fetchPage\<close>.
\<close>

definition catch_block ::
  "nat \<Rightarrow> attempt_obs \<Rightarrow> nat \<Rightarrow> js_error \<Rightarrow> loop_vars \<Rightarrow> pool_state \<Rightarrow> step \<times> pool_state" where
  "catch_block retries obs attempt err v s =
     (let v1 = v\<lparr>lastError := Some err\<rparr> in
      if attempt + 1 < retries \<and> attempt = 1 \<and> \<not> wasRecycled v1 then
        (case recyclePage (currentPage v1) (recycle_failed obs) s of
           (Inl err', s') \<Rightarrow> (Done (Threw err'), s')
         | (Inr p, s') \<Rightarrow> (Continue (v1\<lparr>currentPage := p, wasRecycled := True\<rparr>), s'))
      else (Continue v1, s))"

text \<open>One iteration of the loop: the \<^verbatim>\<open>try\<close> block with its block branch, and the catch.\<close>

definition fetch_attempt ::
  "js_string \<Rightarrow> nat \<Rightarrow> attempt_obs \<Rightarrow> nat \<Rightarrow> loop_vars \<Rightarrow> pool_state \<Rightarrow> step \<times> pool_state" where
  "fetch_attempt url retries obs attempt v s =
     (case try_body url obs of
        Inl err \<Rightarrow> catch_block retries obs attempt err v s
      | Inr (html, blocked) \<Rightarrow>
          if blocked \<and> attempt + 1 < retries then
            (case recyclePage (currentPage v) (recycle_blocked obs) s of
               (Inl err, s') \<Rightarrow> catch_block retries obs attempt err v s'
             | (Inr p, s') \<Rightarrow> (Continue (v\<lparr>currentPage := p, wasRecycled := True\<rparr>), s'))
          else (Done (Returned html (currentPage v) (wasRecycled v)), s))"

definition failed_to_fetch :: "js_string \<Rightarrow> nat \<Rightarrow> js_string \<Rightarrow> js_error" where
  "failed_to_fetch url retries m =
     Error (lit ''Failed to fetch '' @ url @ lit '' after '' @ String_nat retries @
            lit '' attempts: '' @ m)"

definition undefined_message :: js_error where
  "undefined_message = cannot_read (lit ''message'')"

text \<open>
  The result of a call: what it returned or threw, how many iterations of the loop it
  entered (one \<^verbatim>\<open>Fetching ... (attempt k/n)\<close> line each), and the pool it leaves.
\<close>

record fetch_result =
  outcome :: fetch_outcome
  attempts :: nat
  pool_after :: pool_state

function fetch_loop ::
  "js_string \<Rightarrow> nat \<Rightarrow> (nat \<Rightarrow> attempt_obs) \<Rightarrow> nat \<Rightarrow> loop_vars \<Rightarrow> pool_state \<Rightarrow> fetch_result" where
  "fetch_loop url retries env attempt v s =
     (if attempt < retries then
        (case fetch_attempt url retries (env attempt) attempt v s of
           (Done out, s') \<Rightarrow> \<lparr>outcome = out, attempts = attempt + 1, pool_after = s'\<rparr>
         | (Continue v', s') \<Rightarrow> fetch_loop url retries env (attempt + 1) v' s')
      else
        \<lparr>outcome = Threw (case lastError v of
                            None \<Rightarrow> undefined_message
                          | Some err \<Rightarrow> failed_to_fetch url retries (message err)),
         attempts = attempt, pool_after = s\<rparr>)"
  by pat_completeness auto
termination
  by (relation "measure (\<lambda>(url, retries, env, attempt, v, s). retries - attempt)") auto

declare fetch_loop.simps [simp del]

text \<open>
  What a call meets: the clock and the browser's answers for the recycle before the
  loop, and the page's answers for each attempt.
\<close>

record fetch_env =
  stats_time :: nat
  recycle_first :: create_env
  attempt_env :: "nat \<Rightarrow> attempt_obs"

text \<open>
  \<^verbatim>\<open>fetchPage(url, page, retries)\<close>. The page is a handle, never \<^verbatim>\<open>null\<close>; the URL check is
  the emptiness check (the other half, \<^verbatim>\<open>typeof url !== 'string'\<close>, is the type).
\<close>

definition fetchPage ::
  "js_string \<Rightarrow> page \<Rightarrow> nat \<Rightarrow> fetch_env \<Rightarrow> pool_state \<Rightarrow> fetch_result" where
  "fetchPage url pg retries env s =
     (if url = [] then
        \<lparr>outcome = Threw (Error (lit ''Invalid URL provided'')), attempts = 0, pool_after = s\<rparr>
      else if shouldRecycle (getPageStats (stats_time env) s pg) then
        (case recyclePage pg (recycle_first env) s of
           (Inl err, s') \<Rightarrow> \<lparr>outcome = Threw err, attempts = 0, pool_after = s'\<rparr>
         | (Inr p, s') \<Rightarrow>
             fetch_loop url retries (attempt_env env) 0
               \<lparr>currentPage = p, wasRecycled = True, lastError = None\<rparr> s')
      else
        fetch_loop url retries (attempt_env env) 0
          \<lparr>currentPage = pg, wasRecycled = False, lastError = None\<rparr> s)"

subsection \<open>The course of a call\<close>

text \<open>
  The variables and the pool with which a call enters its loop: none when the URL check or
  the recycle before the loop throws.
\<close>

definition loop_entry ::
  "js_string \<Rightarrow> page \<Rightarrow> fetch_env \<Rightarrow> pool_state \<Rightarrow> (loop_vars \<times> pool_state) option" where
  "loop_entry url pg env s =
     (if url = [] then None
      else if shouldRecycle (getPageStats (stats_time env) s pg) then
        (case recyclePage pg (recycle_first env) s of
           (Inl err, s') \<Rightarrow> None
         | (Inr p, s') \<Rightarrow> Some (\<lparr>currentPage = p, wasRecycled = True, lastError = None\<rparr>, s'))
      else Some (\<lparr>currentPage = pg, wasRecycled = False, lastError = None\<rparr>, s))"

text \<open>
  The variables and the pool after \<open>k\<close> iterations that all went on to the next one: none
  when an earlier iteration returned or threw, or when the loop has fewer iterations.
\<close>

fun loop_state ::
  "js_string \<Rightarrow> nat \<Rightarrow> (nat \<Rightarrow> attempt_obs) \<Rightarrow> nat \<Rightarrow> loop_vars \<Rightarrow> pool_state \<Rightarrow>
     (loop_vars \<times> pool_state) option" where
  "loop_state url retries env 0 v s = Some (v, s)"
| "loop_state url retries env (Suc k) v s =
     (case loop_state url retries env k v s of
        None \<Rightarrow> None
      | Some (v', s') \<Rightarrow>
          if k < retries then
            (case fetch_attempt url retries (env k) k v' s' of
               (Continue v'', s'') \<Rightarrow> Some (v'', s'')
             | (Done out, s'') \<Rightarrow> None)
          else None)"

text \<open>
  The call \<^verbatim>\<open>fetchPage(url, page, retries)\<close> reaches attempt \<open>k\<close> (counted from 0, as the loop
  counts) with these variables and this pool.
\<close>

definition attempt_state ::
  "js_string \<Rightarrow> page \<Rightarrow> nat \<Rightarrow> fetch_env \<Rightarrow> pool_state \<Rightarrow> nat \<Rightarrow>
     (loop_vars \<times> pool_state) option" where
  "attempt_state url pg retries env s k =
     (case loop_entry url pg env s of
        None \<Rightarrow> None
      | Some (v, s') \<Rightarrow> loop_state url retries (attempt_env env) k v s')"

subsection \<open>The block heuristic in the words of the specification\<close>

text \<open>
  The explicit phrases, which always count, and the generic ones, which count on a page
  of fewer than 5000 code units; a phrase is contained when it is a contiguous part of
  the body text (\<open>sublist\<close>).
\<close>

definition explicit_block_phrases :: "js_string list" where
  "explicit_block_phrases =
     [lit ''access denied for your ip'', lit ''your request was blocked'',
      lit ''rate limit exceeded'', lit ''too many requests from your ip'']"

definition generic_block_phrases :: "js_string list" where
  "generic_block_phrases = [lit ''access denied'', lit ''blocked'']"


section \<open>Glyph decoder: solveFont.js and decodeObfuscatedText.js\<close>

text \<open>
  The rendering of a number inside a template literal: an integer in decimal, \<^verbatim>\<open>NaN\<close> for
  \<open>None\<close>. (Font metrics stay far below the magnitude where JavaScript switches to the
  exponent notation.)
\<close>

definition String_int :: "int \<Rightarrow> js_string" where
  "String_int i = (if i < 0 then 45 # String_nat (nat (- i)) else String_nat (nat i))"

definition String_number :: "int option \<Rightarrow> js_string" where
  "String_number x = (case x of None \<Rightarrow> lit ''NaN'' | Some i \<Rightarrow> String_int i)"

text \<open>\<^verbatim>\<open>Math.round\<close> rounds to the nearest integer, a half upwards.\<close>

definition Math_round :: "real \<Rightarrow> int" where
  "Math_round x = \<lfloor>x + 1 / 2\<rfloor>"

text \<open>
  A glyph as \<^verbatim>\<open>opentype.js\<close> delivers it: a bound of an empty outline and a missing
  advance width are \<^verbatim>\<open>undefined\<close>, here \<open>None\<close>.
\<close>

record glyph =
  xMin :: "real option"
  xMax :: "real option"
  yMin :: "real option"
  yMax :: "real option"
  advanceWidth :: "real option"

text \<open>
  A parsed font: whether \<^verbatim>\<open>font.names.fontFamily\<close> is defined, and the character map
  \<^verbatim>\<open>glyphIndexMap\<close> as \<^verbatim>\<open>for ... in\<close> walks it, each character code with the glyph that
  \<^verbatim>\<open>font.glyphs.get\<close> returns for its index (\<open>None\<close> when it returns \<^verbatim>\<open>undefined\<close>).
\<close>

record font =
  has_fontFamily :: bool
  cmap :: "(nat \<times> glyph option) list"

text \<open>
  The fingerprint catalog \<^verbatim>\<open>public/fonts/mapping.js\<close> is data outside the sources: it is
  a parameter, a lookup from key strings to letters (\<open>None\<close> for a key it does not have).
  The decoder is a JavaScript object: an association list with distinct keys.
\<close>

type_synonym catalog = "js_string \<Rightarrow> js_string option"

type_synonym decoder = "(js_string \<times> js_string) list"

text \<open>\<^verbatim>\<open>a || b\<close> on two lookups: the first when it is a non-empty string, else the second.\<close>

definition js_or :: "js_string option \<Rightarrow> js_string option \<Rightarrow> js_string option" where
  "js_or a b = (case a of Some v \<Rightarrow> if v \<noteq> [] then Some v else b | None \<Rightarrow> b)"

definition number_or_zero :: "real option \<Rightarrow> real" where
  "number_or_zero x = (case x of Some v \<Rightarrow> v | None \<Rightarrow> 0)"

text \<open>Lines 21 to 36: the two keys of a glyph and the letter the catalog has for them.\<close>

definition realLetter :: "catalog \<Rightarrow> glyph \<Rightarrow> js_string option" where
  "realLetter fontMapping g =
     (let width = Math_round (number_or_zero (xMax g) - number_or_zero (xMin g));
          height = Math_round (number_or_zero (yMax g) - number_or_zero (yMin g));
          advWidth = map_option Math_round (advanceWidth g);
          key1 = String_int width @ lit ''x'' @ String_int height;
          key2 = String_number advWidth @ lit ''x'' @ String_int width @ lit ''x'' @
                 String_int height
      in js_or (fontMapping key1) (fontMapping key2))"

text \<open>\<^verbatim>\<open>String.fromCharCode\<close> keeps the low 16 bits of the code.\<close>

definition fromCharCode :: "nat \<Rightarrow> js_string" where
  "fromCharCode charCode = [charCode mod 65536]"

text \<open>The loop over the character map (lines 15 to 50).\<close>

fun lookup_phase :: "catalog \<Rightarrow> (nat \<times> glyph option) list \<Rightarrow> decoder \<Rightarrow> js_error + decoder" where
  "lookup_phase fontMapping [] decoder = Inr decoder"
| "lookup_phase fontMapping ((charCode, None) # rest) decoder =
     Inl (cannot_read (lit ''xMin''))"
| "lookup_phase fontMapping ((charCode, Some g) # rest) decoder =
     (case realLetter fontMapping g of
        Some letter \<Rightarrow>
          if letter \<noteq> []
          then lookup_phase fontMapping rest (AList.update (fromCharCode charCode) letter decoder)
          else lookup_phase fontMapping rest decoder
      | None \<Rightarrow> lookup_phase fontMapping rest decoder)"

definition FULL_ALPHABET :: js_string where
  "FULL_ALPHABET = lit ''abcdefghijklmnopqrstuvwxyzABCDEFGHIJKLMNOPQRSTUVWXYZ''"

definition ALL_LETTERS :: "js_string list" where
  "ALL_LETTERS = map (\<lambda>c. [c]) FULL_ALPHABET"

definition TOTAL_LETTERS :: nat where
  "TOTAL_LETTERS = length ALL_LETTERS"

text \<open>
  The loop at lines 69 to 76, for one of its two variables: the last letter of the
  alphabet that is not among \<open>existing\<close>, \<open>None\<close> (\<^verbatim>\<open>null\<close>) when there is none.
\<close>

definition missing :: "js_string list \<Rightarrow> js_string list \<Rightarrow> js_string option" where
  "missing existing letters =
     foldl (\<lambda>m char. if char \<notin> set existing then Some char else m) None letters"

text \<open>The gap completion (lines 56 to 85). A letter is a non-empty string, so it is truthy.\<close>

definition gap_completion :: "decoder \<Rightarrow> decoder" where
  "gap_completion decoder =
     (let mapKeys = map fst decoder; mapValues = map snd decoder
      in if length mapKeys = TOTAL_LETTERS - 1 \<and> length mapValues = TOTAL_LETTERS - 1
         then (case (missing mapKeys ALL_LETTERS, missing mapValues ALL_LETTERS) of
                 (Some missingKey, Some missingValue) \<Rightarrow>
                   AList.update missingKey missingValue decoder
               | _ \<Rightarrow> decoder)
         else decoder)"

text \<open>
  \<^verbatim>\<open>solveFont(fontPath)\<close>. \<open>file\<close> is what reading and parsing the file at the path gives:
  the error \<^verbatim>\<open>fs.readFileSync\<close> or \<^verbatim>\<open>opentype.parse\<close> throws, or the font. Nothing in the
  function catches an error.
\<close>

definition solveFont :: "catalog \<Rightarrow> js_error + font \<Rightarrow> js_error + decoder" where
  "solveFont fontMapping file =
     (case file of
        Inl err \<Rightarrow> Inl err
      | Inr fnt \<Rightarrow>
          if \<not> has_fontFamily fnt then Inl (cannot_read (lit ''en''))
          else (case lookup_phase fontMapping (cmap fnt) [] of
                  Inl err \<Rightarrow> Inl err
                | Inr decoder \<Rightarrow> Inr (gap_completion decoder)))"

record decode_result =
  result_text :: js_string
  success :: bool

text \<open>The test \<^verbatim>\<open>/[A-Za-z]/\<close> on one code unit.\<close>

definition is_latin_letter :: "nat \<Rightarrow> bool" where
  "is_latin_letter c = ((65 \<le> c \<and> c \<le> 90) \<or> (97 \<le> c \<and> c \<le> 122))"

text \<open>
  The decoding loop (lines 73 to 92), over the code units that are left, with
  \<^verbatim>\<open>decodedText\<close> and \<^verbatim>\<open>anyCharWasDecoded\<close>.
\<close>

fun decode_loop :: "decoder \<Rightarrow> js_string \<Rightarrow> js_string \<Rightarrow> bool \<Rightarrow> js_string \<times> bool" where
  "decode_loop glyphToCharMap [] decodedText anyCharWasDecoded =
     (decodedText, anyCharWasDecoded)"
| "decode_loop glyphToCharMap (c # cs) decodedText anyCharWasDecoded =
     (if \<not> is_latin_letter c
      then decode_loop glyphToCharMap cs (decodedText @ [c]) anyCharWasDecoded
      else (case map_of glyphToCharMap [c] of
              Some letter \<Rightarrow>
                if letter \<noteq> []
                then decode_loop glyphToCharMap cs (decodedText @ letter) True
                else decode_loop glyphToCharMap cs decodedText anyCharWasDecoded
            | None \<Rightarrow> decode_loop glyphToCharMap cs decodedText anyCharWasDecoded))"

text \<open>Lines 59 to 100 of \<^verbatim>\<open>decodeObfuscatedText\<close>: the decoding once the map is there.\<close>

definition decode_with_map :: "decoder \<Rightarrow> js_string \<Rightarrow> decode_result" where
  "decode_with_map glyphToCharMap encodedText =
     (let mapIsValid = (length (map fst glyphToCharMap) > 0)
      in if encodedText = [] \<or> \<not> mapIsValid
         then \<lparr>result_text = encodedText, success = False\<rparr>
         else (case decode_loop glyphToCharMap encodedText [] False of
                 (decodedText, anyCharWasDecoded) \<Rightarrow>
                   \<lparr>result_text = decodedText,
                    success = (mapIsValid \<and> anyCharWasDecoded)\<rparr>))"

definition decodeObfuscatedText ::
  "catalog \<Rightarrow> js_string \<Rightarrow> js_error + font \<Rightarrow> js_error + decode_result" where
  "decodeObfuscatedText fontMapping encodedText file =
     (case solveFont fontMapping file of
        Inl err \<Rightarrow> Inl err
      | Inr glyphToCharMap \<Rightarrow> Inr (decode_with_map glyphToCharMap encodedText))"



section \<open>Job orchestrator: parser\_init.js, discover\_novel.js and discover\_chapter.js\<close>





text \<open>
  A row of one of the two tables of \<^verbatim>\<open>db_init.js\<close>: its primary key, its status and its
  other columns (the two timestamps are left out: nothing reads them).
\<close>

record 'a row =
  row_id :: nat
  status :: int
  columns :: 'a






































subsection \<open>Status paths and the history of a run\<close>












section \<open>Example inputs\<close>

definition ex_fingerprint :: fingerprint where
  "ex_fingerprint =
     \<lparr>userAgent = lit ''Mozilla/5.0'', viewport = (1920, 1080),
      languages = [lit ''en-US'', lit ''en''], timezone = lit ''Europe/London'',
      platform = lit ''Win32'', webgl_vendor = lit ''Intel Inc.'',
      webgl_renderer = lit ''Intel Iris OpenGL Engine''\<rparr>"

definition ex_create :: "page \<Rightarrow> nat \<Rightarrow> create_env" where
  "ex_create p t = \<lparr>launch = None, newPage = Inr p, now = t, fresh_fingerprint = ex_fingerprint\<rparr>"

text \<open>The doubles 0.5 and 0.8333333333333333 (the double next below five sixths).\<close>

definition ex_half :: unit_double where
  "ex_half = \<lparr>significand = 1, scale = 1\<rparr>"

definition ex_below_five_sixths :: unit_double where
  "ex_below_five_sixths = \<lparr>significand = 3752999689475413, scale = 52\<rparr>"

definition ex_pool3 :: pool_state where
  "ex_pool3 =
     snd (getPage True (ex_create 3 30)
       (snd (getPage True (ex_create 2 20)
         (snd (getPage True (ex_create 1 10) (module_load ex_half))))))"


definition ex_large_page :: js_string where
  "ex_large_page = replicate 5000 32"

definition ex_url :: js_string where
  "ex_url = lit ''https://example.org/novel/1''"

definition ex_response :: "nat \<Rightarrow> attempt_obs" where
  "ex_response http_status =
     \<lparr>goto = Inr (Some http_status), title = Inr (lit ''Example''), captchaSolved = True,
      content = Inr [], bodyText = Inr [],
      recycle_blocked = ex_create 8 80, recycle_failed = ex_create 9 90\<rparr>"

definition ex_fetch_env :: "nat \<Rightarrow> fetch_env" where
  "ex_fetch_env http_status =
     \<lparr>stats_time = 50, recycle_first = ex_create 7 70,
      attempt_env = (\<lambda>i. ex_response http_status)\<rparr>"


definition ex_pool_recycled :: pool_state where
  "ex_pool_recycled = snd (recyclePage 1 (ex_create 9 90) ex_pool3)"

definition ex_blocked_page :: attempt_obs where
  "ex_blocked_page =
     \<lparr>goto = Inr (Some 200), title = Inr (lit ''Example''), captchaSolved = True,
      content = Inr (replicate 200 32), bodyText = Inr (lit ''access denied''),
      recycle_blocked = ex_create 8 80, recycle_failed = ex_create 9 90\<rparr>"



definition ex_blocked_env :: fetch_env where
  "ex_blocked_env =
     \<lparr>stats_time = 50, recycle_first = ex_create 7 70,
      attempt_env = (\<lambda>i. if i < 2 then ex_response 503 else ex_blocked_page)\<rparr>"

definition ex_not_found_crash_env :: fetch_env where
  "ex_not_found_crash_env =
     \<lparr>stats_time = 50, recycle_first = ex_create 7 70,
      attempt_env = (\<lambda>i. (ex_response 404)
        \<lparr>recycle_failed := (ex_create 9 90)\<lparr>newPage := Inl (Error (lit ''Target closed''))\<rparr>\<rparr>)\<rparr>"

definition ex_glyph :: "nat \<Rightarrow> glyph" where
  "ex_glyph w = \<lparr>xMin = Some 0, xMax = Some (real w), yMin = Some (-2), yMax = Some (15/2),
                 advanceWidth = Some 600\<rparr>"

definition ex_font51 :: font where
  "ex_font51 = \<lparr>has_fontFamily = True,
                cmap = map (\<lambda>c. (c, Some (ex_glyph c))) (butlast FULL_ALPHABET)\<rparr>"

text \<open>
  A synthetic catalog: the key \<^verbatim>\<open>WxH\<close> of a glyph of height 10 has the letter that follows
  the letter with code \<open>W\<close> in the alphabet.
\<close>

definition ex_next_letter :: "nat \<Rightarrow> js_string" where
  "ex_next_letter c = (if c = 122 then [65] else [c + 1])"

fun ex_catalog :: catalog where
  "ex_catalog [a, b, x, h1, h0] =
     (if [x, h1, h0] = [120, 49, 48]
      then Some (ex_next_letter (10 * (a - 48) + (b - 48))) else None)"
| "ex_catalog [a, b, c, x, h1, h0] =
     (if [x, h1, h0] = [120, 49, 48]
      then Some (ex_next_letter (100 * (a - 48) + 10 * (b - 48) + (c - 48))) else None)"
| "ex_catalog key = None"

definition ex_resolved :: decoder where
  "ex_resolved = zip (butlast ALL_LETTERS) (tl ALL_LETTERS)"

definition ex_font2 :: font where
  "ex_font2 = \<lparr>has_fontFamily = True, cmap = [(115, Some (ex_glyph 115)), (67, Some (ex_glyph 67))]\<rparr>"








section \<open>Properties of the JavaScript values\<close>

lemma take_length_prefix: "take (length sub) xs = sub \<longleftrightarrow> prefix sub xs"
proof
  assume "take (length sub) xs = sub"
  then have "xs = sub @ drop (length sub) xs"
    by (metis append_take_drop_id)
  then show "prefix sub xs"
    by (metis prefixI)
next
  assume "prefix sub xs"
  then show "take (length sub) xs = sub"
    by (auto simp: prefix_def)
qed

lemma js_includes_sublist: "js_includes s sub \<longleftrightarrow> sublist sub s"
proof (induction s)
  case Nil
  show ?case by auto
next
  case (Cons c cs)
  show ?case
    unfolding js_includes.simps take_length_prefix Cons.IH
    by (simp add: sublist_Cons_right)
qed

text \<open>Rounding moves a number by at most half of the step.\<close>

lemma round_to_even_le: "2 * round_to_even s x \<le> 2 * x + 2 ^ s"
proof -
  define q where "q = x div 2 ^ s"
  define r where "r = x mod 2 ^ s"
  have x: "x = q * 2 ^ s + r"
    using div_mult_mod_eq[of x "2 ^ s"] by (simp add: q_def r_def)
  have re: "round_to_even s x =
      (if 2 * r > 2 ^ s \<or> (2 * r = 2 ^ s \<and> odd q) then q + 1 else q) * 2 ^ s"
    by (simp add: round_to_even_def Let_def q_def r_def)
  show ?thesis
  proof (cases "2 * r > 2 ^ s \<or> (2 * r = 2 ^ s \<and> odd q)")
    case True
    then have h: "2 ^ s \<le> 2 * r"
      by auto
    have v: "round_to_even s x = (q + 1) * 2 ^ s"
      using re True by simp
    show ?thesis
      unfolding v using x h by (simp add: algebra_simps)
  next
    case False
    have v: "round_to_even s x = q * 2 ^ s"
      using re False by simp
    show ?thesis
      unfolding v using x by (simp add: algebra_simps)
  qed
qed

lemma round_to_even_0: "round_to_even 0 x = x"
  by (simp add: round_to_even_def)

lemma excess_bits_small: "x < 2 ^ 53 \<Longrightarrow> excess_bits x = 0"
  by (simp add: excess_bits.simps)

lemma excess_bits_le_3:
  assumes "x < 2 ^ 56"
  shows "excess_bits x \<le> 3"
proof -
  have "x div 2 div 2 div 2 < 2 ^ 53"
    using assms by (simp add: div_mult2_eq[symmetric] less_mult_imp_div_less)
  then have "excess_bits (x div 2 div 2 div 2) = 0"
    by (rule excess_bits_small)
  then show ?thesis
    by (subst excess_bits.simps, subst excess_bits.simps, subst excess_bits.simps) simp
qed

text \<open>In doubles too, six times a number below 1 stays below 6.\<close>

lemma Math_floor_times_6_range:
  assumes "is_unit_double r"
  shows "Math_floor_times r 6 \<le> 5"
proof -
  let ?m = "significand r" and ?k = "scale r"
  have m: "?m < 2 ^ 53" "?m < 2 ^ ?k"
    using assms by (simp_all add: is_unit_double_def)
  then have x: "?m * 6 + 6 \<le> 6 * 2 ^ ?k"
    by simp
  have "?m * 6 < 2 ^ 56"
    using m(1) by simp
  then have "excess_bits (?m * 6) \<le> 3"
    by (rule excess_bits_le_3)
  then have "(2::nat) ^ excess_bits (?m * 6) \<le> 2 ^ 3"
    by (intro power_increasing) simp_all
  then have "2 * to_double (?m * 6) \<le> 2 * (?m * 6) + 8"
    using round_to_even_le[of "excess_bits (?m * 6)" "?m * 6"] by (simp add: to_double_def)
  then have "to_double (?m * 6) < 6 * 2 ^ ?k"
    using x by linarith
  then have "to_double (?m * 6) div 2 ^ ?k < 6"
    by (simp add: less_mult_imp_div_less)
  then show ?thesis
    by (simp add: Math_floor_times_def)
qed

lemma ex_half_floor: "Math_floor_times ex_half 6 = 3"
  by (simp add: Math_floor_times_def to_double_def excess_bits.simps round_to_even_def ex_half_def)

lemma ex_below_five_sixths_floor: "Math_floor_times ex_below_five_sixths 6 = 5"
  by (simp add: Math_floor_times_def to_double_def excess_bits.simps round_to_even_def
        ex_below_five_sixths_def)

lemma ex_unit_doubles: "is_unit_double ex_half" "is_unit_double ex_below_five_sixths"
  by (simp_all add: is_unit_double_def ex_half_def ex_below_five_sixths_def)

section \<open>Properties of the session pool\<close>

lemma length_delete_member:
  "(k, v) \<in> set al \<Longrightarrow> length (AList.delete k al) < length al"
  by (induction al) (auto simp: AList.delete_eq le_imp_less_Suc)

lemma length_update:
  "length (AList.update k v al) = (if k \<in> fst ` set al then length al else Suc (length al))"
  by (induction al) auto

lemma find_Some_key:
  "find P al = Some (p, d) \<Longrightarrow> p \<in> fst ` set al"
  by (metis find_Some_iff fst_conv image_eqI nth_mem)

lemma evict_pages_length:
  assumes "length pool \<le> MAX_PAGES"
  shows "Suc (length (evict_pages M pool)) \<le> MAX_PAGES"
proof -
  let ?pool1 = "filter (\<lambda>(p, d). \<not> uses d \<ge> M) pool"
  have l1: "length ?pool1 \<le> MAX_PAGES"
    using assms by (meson le_trans length_filter_le)
  show ?thesis
  proof (cases "length ?pool1 \<ge> MAX_PAGES")
    case True
    then obtain k d rest where c: "?pool1 = (k, d) # rest"
      by (cases ?pool1) (auto simp: MAX_PAGES_def)
    have "length (AList.delete k ?pool1) < length ?pool1"
      by (rule length_delete_member[of k d]) (simp add: c)
    then show ?thesis
      using True l1 c by (simp add: evict_pages_def)
  next
    case False
    then show ?thesis by (simp add: evict_pages_def)
  qed
qed

lemma evict_pages_distinct:
  assumes "distinct (map fst pool)"
  shows "distinct (map fst (evict_pages M pool))"
proof -
  let ?pool1 = "filter (\<lambda>(p, d). \<not> uses d \<ge> M) pool"
  have d1: "distinct (map fst ?pool1)"
    using assms by (rule distinct_map_filter)
  have "distinct (map fst (AList.delete k ?pool1))" for k
    using d1 by (rule AList.distinct_delete)
  then show ?thesis
    using d1 by (cases ?pool1) (auto simp: evict_pages_def Let_def)
qed

lemma initBrowser_Inr:
  assumes "initBrowser e s = Inr s1"
  shows "pagePool s1 = pagePool s" and "MAX_PAGE_USES s1 = MAX_PAGE_USES s"
    and "browserInstance s1"
  using assms by (auto simp: initBrowser_def split: if_splits option.splits)

lemma getPage_cases:
  obtains
    (launch_failed) err where "initBrowser e s = Inl err" "getPage f e s = (Inl err, s)"
  | (reused) s1 p d where "initBrowser e s = Inr s1" "\<not> f"
      "find (\<lambda>(p, d). uses d < MAX_PAGE_USES s) (pagePool s) = Some (p, d)"
      "getPage f e s =
         (Inr p, s1\<lparr>pagePool := AList.update p (d\<lparr>uses := uses d + 1\<rparr>) (pagePool s)\<rparr>)"
  | (create_failed) s1 err where "initBrowser e s = Inr s1" "newPage e = Inl err"
      "f \<or> find (\<lambda>(p, d). uses d < MAX_PAGE_USES s) (pagePool s) = None"
      "getPage f e s = (Inl err, s1\<lparr>pagePool := evict_pages (MAX_PAGE_USES s) (pagePool s)\<rparr>)"
  | (created) s1 p where "initBrowser e s = Inr s1" "newPage e = Inr p"
      "f \<or> find (\<lambda>(p, d). uses d < MAX_PAGE_USES s) (pagePool s) = None"
      "getPage f e s =
         (Inr p, s1\<lparr>pagePool := AList.update p
                     \<lparr>uses = 1, created = now e, fingerprint = fresh_fingerprint e\<rparr>
                     (evict_pages (MAX_PAGE_USES s) (pagePool s))\<rparr>)"
proof (cases "initBrowser e s")
  case (Inl err)
  then show ?thesis using launch_failed by (simp add: getPage_def)
next
  case ib: (Inr s1)
  note eqs = initBrowser_Inr[OF ib]
  show ?thesis
  proof (cases "if f then None else find (\<lambda>(p, d). uses d < MAX_PAGE_USES s) (pagePool s)")
    case None
    then have c: "f \<or> find (\<lambda>(p, d). uses d < MAX_PAGE_USES s) (pagePool s) = None"
      by (simp split: if_splits)
    have sc: "(if f then None else find (\<lambda>(p, d). uses d < MAX_PAGE_USES s1) (pagePool s1)) = None"
      using c by (auto simp: eqs)
    show ?thesis
    proof (cases "newPage e")
      case (Inl err)
      have "getPage f e s = (Inl err, s1\<lparr>pagePool := evict_pages (MAX_PAGE_USES s) (pagePool s)\<rparr>)"
        by (simp only: getPage_def ib sc Inl sum.case option.case Let_def, simp add: eqs)
      then show ?thesis using create_failed[OF ib Inl c] by simp
    next
      case (Inr p)
      have "getPage f e s =
         (Inr p, s1\<lparr>pagePool := AList.update p
                     \<lparr>uses = 1, created = now e, fingerprint = fresh_fingerprint e\<rparr>
                     (evict_pages (MAX_PAGE_USES s) (pagePool s))\<rparr>)"
        by (simp only: getPage_def ib sc Inr sum.case option.case Let_def, simp add: eqs)
      then show ?thesis using created[OF ib Inr c] by simp
    qed
  next
    case (Some a)
    obtain p d where a: "a = (p, d)" by (cases a)
    from Some a have nf: "\<not> f" and fd: "find (\<lambda>(p, d). uses d < MAX_PAGE_USES s) (pagePool s) = Some (p, d)"
      by (simp_all split: if_splits)
    have sc: "(if f then None else find (\<lambda>(p, d). uses d < MAX_PAGE_USES s1) (pagePool s1)) = Some (p, d)"
      using nf fd by (simp add: eqs)
    have "getPage f e s =
         (Inr p, s1\<lparr>pagePool := AList.update p (d\<lparr>uses := uses d + 1\<rparr>) (pagePool s)\<rparr>)"
      by (simp only: getPage_def ib sc sum.case option.case prod.case, simp add: eqs)
    then show ?thesis using reused[OF ib nf fd] by simp
  qed
qed

lemma getPage_MAX_PAGE_USES: "MAX_PAGE_USES (snd (getPage f e s)) = MAX_PAGE_USES s"
  by (cases f e s rule: getPage_cases) (auto dest: initBrowser_Inr)

lemma getPage_length:
  assumes "length (pagePool s) \<le> MAX_PAGES"
  shows "length (pagePool (snd (getPage f e s))) \<le> MAX_PAGES"
proof (cases f e s rule: getPage_cases)
  case (launch_failed err)
  then show ?thesis using assms by simp
next
  case (reused s1 p d)
  then show ?thesis using assms by (simp add: length_update find_Some_key)
next
  case (create_failed s1 err)
  then show ?thesis using evict_pages_length[OF assms, of "MAX_PAGE_USES s"] by simp
next
  case (created s1 p)
  then show ?thesis using evict_pages_length[OF assms, of "MAX_PAGE_USES s"]
    by (simp add: length_update)
qed

lemma getPage_distinct:
  assumes "distinct (map fst (pagePool s))"
  shows "distinct (map fst (pagePool (snd (getPage f e s))))"
  by (cases f e s rule: getPage_cases)
     (use assms in \<open>simp_all add: AList.distinct_update evict_pages_distinct\<close>)

lemma recyclePage_length:
  assumes "length (pagePool s) \<le> MAX_PAGES"
  shows "length (pagePool (snd (recyclePage p e s))) \<le> MAX_PAGES"
  unfolding recyclePage_def
  by (rule getPage_length) (use assms AList.length_delete_le[of p "pagePool s"] in simp)

lemma recyclePage_distinct:
  assumes "distinct (map fst (pagePool s))"
  shows "distinct (map fst (pagePool (snd (recyclePage p e s))))"
  unfolding recyclePage_def
  by (rule getPage_distinct) (use assms in \<open>simp add: AList.distinct_delete\<close>)

lemma recyclePage_MAX_PAGE_USES: "MAX_PAGE_USES (snd (recyclePage p e s)) = MAX_PAGE_USES s"
  by (simp add: recyclePage_def getPage_MAX_PAGE_USES)

lemma reachable_inv:
  "reachable r s \<Longrightarrow>
     distinct (map fst (pagePool s)) \<and> length (pagePool s) \<le> MAX_PAGES \<and>
     MAX_PAGE_USES s = Math_floor_times r 6 + 10 \<and> is_unit_double r"
proof (induction rule: reachable.induct)
  case loaded
  then show ?case by (simp add: module_load_def)
next
  case (after_getPage s forceNew e)
  then show ?case by (simp add: getPage_length getPage_distinct getPage_MAX_PAGE_USES)
next
  case (after_recyclePage s p e)
  then show ?case by (simp add: recyclePage_length recyclePage_distinct recyclePage_MAX_PAGE_USES)
next
  case (after_closeBrowser s close_ok)
  then show ?case by (simp add: closeBrowser_def)
next
  case (after_disconnected s)
  then show ?case by (simp add: disconnected_def)
qed

lemma ex_pool3_eq:
  "ex_pool3 = \<lparr>MAX_PAGE_USES = 13, browserInstance = True,
     pagePool = [(1, \<lparr>uses = 1, created = 10, fingerprint = ex_fingerprint\<rparr>),
                 (2, \<lparr>uses = 1, created = 20, fingerprint = ex_fingerprint\<rparr>),
                 (3, \<lparr>uses = 1, created = 30, fingerprint = ex_fingerprint\<rparr>)]\<rparr>"
  by (simp add: ex_pool3_def getPage_def initBrowser_def evict_pages_def module_load_def
        MAX_PAGES_def ex_create_def ex_half_floor)

lemma ex_pool3_reachable: "reachable ex_half ex_pool3"
  unfolding ex_pool3_def
  by (intro reachable.after_getPage reachable.loaded ex_unit_doubles)

text \<open>
  Claim C6, as the code has it. The usage ceiling is not a field of a session: it is the
  module constant \<^verbatim>\<open>MAX_PAGE_USES\<close>, drawn once when the module is loaded. In every state
  of a process and for every page, known to the pool or not, \<^verbatim>\<open>getPageStats\<close> reports that
  one value as \<^verbatim>\<open>maxUses\<close>: the value \<^verbatim>\<open>Math.floor(r * 6) + 10\<close> of the one draw \<open>r\<close>, in the
  arithmetic of doubles. It is an integer from 10 to 15 and no operation changes it.
\<close>

theorem shared_ceiling:
  assumes "reachable r s" and "reachable r s'"
  shows "maxUses (getPageStats t s p) = Math_floor_times r 6 + 10 \<and>
         maxUses (getPageStats t' s' q) = maxUses (getPageStats t s p) \<and>
         10 \<le> maxUses (getPageStats t s p) \<and> maxUses (getPageStats t s p) \<le> 15"
proof -
  have m: "maxUses (getPageStats u x y) = MAX_PAGE_USES x" for u x y
    by (simp add: getPageStats_def split: option.splits)
  from assms have "MAX_PAGE_USES s = Math_floor_times r 6 + 10"
    "MAX_PAGE_USES s' = Math_floor_times r 6 + 10" "is_unit_double r"
    by (simp_all add: reachable_inv)
  then show ?thesis
    using Math_floor_times_6_range[of r] by (simp add: m)
qed

text \<open>
  Claim C7. Every state of the module holds at most \<^verbatim>\<open>MAX_PAGES\<close> = 3 pages, under distinct
  keys; \<^verbatim>\<open>getPage\<close>, \<^verbatim>\<open>recyclePage\<close>, \<^verbatim>\<open>closeBrowser\<close> and the disconnection handler keep
  the bound, also when the creation of the page fails. When the pool holds three pages, all
  below the ceiling, \<^verbatim>\<open>getPage(true)\<close> deletes exactly the first inserted of them and
  registers the new page after the two that remain.
\<close>

theorem pool_capacity:
  "(reachable r s \<longrightarrow>
      length (pagePool s) \<le> MAX_PAGES \<and> distinct (map fst (pagePool s))) \<and>
   (length (pagePool s) \<le> MAX_PAGES \<longrightarrow>
      length (pagePool (snd (getPage forceNew e s))) \<le> MAX_PAGES \<and>
      length (pagePool (snd (recyclePage p e s))) \<le> MAX_PAGES \<and>
      length (pagePool (closeBrowser close_ok s)) \<le> MAX_PAGES \<and>
      length (pagePool (disconnected s)) \<le> MAX_PAGES) \<and>
   (pagePool s = [(p1, d1), (p2, d2), (p3, d3)] \<and> distinct [p1, p2, p3, p4] \<and>
    uses d1 < MAX_PAGE_USES s \<and> uses d2 < MAX_PAGE_USES s \<and> uses d3 < MAX_PAGE_USES s \<and>
    (browserInstance s \<or> launch e = None) \<and> newPage e = Inr p4 \<longrightarrow>
      fst (getPage True e s) = Inr p4 \<and>
      pagePool (snd (getPage True e s)) =
        [(p2, d2), (p3, d3),
         (p4, \<lparr>uses = 1, created = now e, fingerprint = fresh_fingerprint e\<rparr>)])"
proof (intro conjI impI)
  assume "reachable r s"
  then show "length (pagePool s) \<le> MAX_PAGES" "distinct (map fst (pagePool s))"
    by (simp_all add: reachable_inv)
next
  assume l: "length (pagePool s) \<le> MAX_PAGES"
  then show "length (pagePool (snd (getPage forceNew e s))) \<le> MAX_PAGES"
    by (rule getPage_length)
  from l show "length (pagePool (snd (recyclePage p e s))) \<le> MAX_PAGES"
    by (rule recyclePage_length)
  from l show "length (pagePool (closeBrowser close_ok s)) \<le> MAX_PAGES"
    by (simp add: closeBrowser_def)
  show "length (pagePool (disconnected s)) \<le> MAX_PAGES"
    by (simp add: disconnected_def)
next
  assume a: "pagePool s = [(p1, d1), (p2, d2), (p3, d3)] \<and> distinct [p1, p2, p3, p4] \<and>
    uses d1 < MAX_PAGE_USES s \<and> uses d2 < MAX_PAGE_USES s \<and> uses d3 < MAX_PAGE_USES s \<and>
    (browserInstance s \<or> launch e = None) \<and> newPage e = Inr p4"
  then have "\<exists>s1. initBrowser e s = Inr s1"
    by (cases "browserInstance s") (auto simp: initBrowser_def)
  then obtain s1 where ib: "initBrowser e s = Inr s1" ..
  have ev: "evict_pages (MAX_PAGE_USES s) [(p1, d1), (p2, d2), (p3, d3)] = [(p2, d2), (p3, d3)]"
    using a by (auto simp: evict_pages_def MAX_PAGES_def AList.delete_eq)
  have g: "getPage True e s =
      (Inr p4, s1\<lparr>pagePool := AList.update p4
          \<lparr>uses = 1, created = now e, fingerprint = fresh_fingerprint e\<rparr>
          (evict_pages (MAX_PAGE_USES s) (pagePool s))\<rparr>)"
    using a by (simp add: getPage_def ib initBrowser_Inr[OF ib])
  show "fst (getPage True e s) = Inr p4"
    by (simp add: g)
  show "pagePool (snd (getPage True e s)) =
        [(p2, d2), (p3, d3),
         (p4, \<lparr>uses = 1, created = now e, fingerprint = fresh_fingerprint e\<rparr>)]"
    using a by (auto simp: g ev)
qed

theorem pool_capacity_witness:
  "reachable ex_half ex_pool3 \<and> length (pagePool ex_pool3) = 3 \<and>
   length (pagePool (snd (recyclePage 2 (ex_create 4 40) ex_pool3))) \<le> MAX_PAGES \<and>
   pagePool (snd (getPage True (ex_create 4 40) ex_pool3)) =
     [(2, \<lparr>uses = 1, created = 20, fingerprint = ex_fingerprint\<rparr>),
      (3, \<lparr>uses = 1, created = 30, fingerprint = ex_fingerprint\<rparr>),
      (4, \<lparr>uses = 1, created = 40, fingerprint = ex_fingerprint\<rparr>)]"
proof -
  note t = pool_capacity[of ex_half ex_pool3 True "ex_create 4 40" 2 True
      1 "\<lparr>uses = 1, created = 10, fingerprint = ex_fingerprint\<rparr>"
      2 "\<lparr>uses = 1, created = 20, fingerprint = ex_fingerprint\<rparr>"
      3 "\<lparr>uses = 1, created = 30, fingerprint = ex_fingerprint\<rparr>" 4]
  have l: "length (pagePool ex_pool3) = 3"
    by (simp add: ex_pool3_eq)
  have h: "pagePool ex_pool3 = [(1, \<lparr>uses = 1, created = 10, fingerprint = ex_fingerprint\<rparr>),
       (2, \<lparr>uses = 1, created = 20, fingerprint = ex_fingerprint\<rparr>),
       (3, \<lparr>uses = 1, created = 30, fingerprint = ex_fingerprint\<rparr>)] \<and>
     distinct [1, 2, 3, 4::nat] \<and>
     uses \<lparr>uses = 1, created = 10, fingerprint = ex_fingerprint\<rparr> < MAX_PAGE_USES ex_pool3 \<and>
     uses \<lparr>uses = 1, created = 20, fingerprint = ex_fingerprint\<rparr> < MAX_PAGE_USES ex_pool3 \<and>
     uses \<lparr>uses = 1, created = 30, fingerprint = ex_fingerprint\<rparr> < MAX_PAGE_USES ex_pool3 \<and>
     (browserInstance ex_pool3 \<or> launch (ex_create 4 40) = None) \<and>
     newPage (ex_create 4 40) = Inr 4"
    by (simp add: ex_pool3_eq ex_create_def)
  from t l h ex_pool3_reachable show ?thesis
    by (simp add: MAX_PAGES_def ex_create_def)
qed

theorem shared_ceiling_witness:
  "reachable ex_half (module_load ex_half) \<and> reachable ex_half ex_pool3 \<and>
   maxUses (getPageStats 50 (module_load ex_half) 7) = 13 \<and>
   maxUses (getPageStats 60 ex_pool3 3) = 13 \<and>
   reachable ex_below_five_sixths (module_load ex_below_five_sixths) \<and>
   maxUses (getPageStats 50 (module_load ex_below_five_sixths) 7) = 15 \<and>
   maxUses (getPageStats 70
     (snd (getPage True (ex_create 1 10) (module_load ex_below_five_sixths))) 1) = 15"
proof -
  have l: "reachable ex_half (module_load ex_half)"
    by (rule reachable.loaded) (rule ex_unit_doubles)
  have k: "reachable ex_below_five_sixths (module_load ex_below_five_sixths)"
    by (rule reachable.loaded) (rule ex_unit_doubles)
  have g: "reachable ex_below_five_sixths
      (snd (getPage True (ex_create 1 10) (module_load ex_below_five_sixths)))"
    by (rule reachable.after_getPage) (rule k)
  from shared_ceiling[OF l ex_pool3_reachable, of 50 7 60 3]
    shared_ceiling[OF k g, of 50 7 70 1] l k ex_pool3_reachable
  show ?thesis
    by (simp add: ex_half_floor ex_below_five_sixths_floor)
qed

text \<open>
  Against claim C6 as it is stated: no two sessions of a process, whenever created and
  whenever asked, have different ceilings.
\<close>

theorem session_ceiling_counterexample:
  "\<not> (\<exists>r s s' t t' p q. reachable r s \<and> reachable r s' \<and>
        maxUses (getPageStats t s p) \<noteq> maxUses (getPageStats t' s' q))"
proof -
  have m: "maxUses (getPageStats u x y) = MAX_PAGE_USES x" for u x y
    by (simp add: getPageStats_def split: option.splits)
  show ?thesis
    by (auto simp: m dest!: reachable_inv)
qed

section \<open>Properties of the fetch protocol\<close>

text \<open>
  Claim C8. The verdict of the block heuristic is exactly: the body text contains one of
  the four explicit phrases, or the HTML is shorter than 5000 and the body text contains
  one of the two generic phrases. So a page of 5000 code units or more that contains no
  explicit phrase is not classified as blocked, whatever generic phrase it contains.
\<close>

theorem block_heuristic:
  "(isBlocked body html \<longleftrightarrow>
      (\<exists>phrase \<in> set explicit_block_phrases. sublist phrase body) \<or>
      (length html < 5000 \<and> (\<exists>phrase \<in> set generic_block_phrases. sublist phrase body))) \<and>
   (5000 \<le> length html \<and> (\<forall>phrase \<in> set explicit_block_phrases. \<not> sublist phrase body)
      \<longrightarrow> \<not> isBlocked body html)"
  by (auto simp: isBlocked_def explicit_block_phrases_def generic_block_phrases_def
        js_includes_sublist)

theorem block_heuristic_witness:
  "5000 \<le> length ex_large_page \<and>
   sublist (lit ''blocked'') (lit ''ad blocked by extension'') \<and>
   \<not> isBlocked (lit ''ad blocked by extension'') ex_large_page \<and>
   isBlocked (lit ''ad blocked by extension'') (take 4999 ex_large_page)"
proof -
  have a: "5000 \<le> length ex_large_page"
    by (simp add: ex_large_page_def)
  have b: "\<forall>phrase \<in> set explicit_block_phrases. \<not> sublist phrase (lit ''ad blocked by extension'')"
    by (simp add: explicit_block_phrases_def js_includes_sublist[symmetric] lit_def)
  have c: "sublist (lit ''blocked'') (lit ''ad blocked by extension'')"
    by (simp add: js_includes_sublist[symmetric] lit_def)
  have d: "\<exists>phrase \<in> set generic_block_phrases. sublist phrase (lit ''ad blocked by extension'')"
    using c by (simp add: generic_block_phrases_def)
  have e: "length (take 4999 ex_large_page) < 5000"
    by (simp add: ex_large_page_def)
  from block_heuristic[of "lit ''ad blocked by extension''" ex_large_page]
       block_heuristic[of "lit ''ad blocked by extension''" "take 4999 ex_large_page"]
       a b c d e
  show ?thesis by blast
qed

lemma initBrowser_Inl: "initBrowser e s = Inl err \<Longrightarrow> launch e = Some err"
  by (auto simp: initBrowser_def split: if_splits option.splits)



lemma getPage_new_ok:
  assumes "launch e = None" and "newPage e = Inr p'"
  shows "fst (getPage True e s) = Inr p'"
  using assms by (cases True e s rule: getPage_cases) (auto dest: initBrowser_Inl)

lemma recyclePage_ok:
  "launch e = None \<Longrightarrow> newPage e = Inr p' \<Longrightarrow> fst (recyclePage p e s) = Inr p'"
  unfolding recyclePage_def by (rule getPage_new_ok)

lemma catch_block_last:
  "attempt + 1 = retries \<Longrightarrow>
     catch_block retries obs attempt err v s = (Continue (v\<lparr>lastError := Some err\<rparr>), s)"
  by (simp add: catch_block_def)

lemma fetch_attempt_last:
  assumes "attempt + 1 = retries"
  shows "fetch_attempt url retries obs attempt v s =
     (case try_body url obs of
        Inl err \<Rightarrow> (Continue (v\<lparr>lastError := Some err\<rparr>), s)
      | Inr (html, blocked) \<Rightarrow> (Done (Returned html (currentPage v) (wasRecycled v)), s))"
  using assms by (simp add: fetch_attempt_def catch_block_last split: sum.splits prod.splits)

lemma fetch_loop_exit:
  "fetch_loop url retries env retries v s =
     \<lparr>outcome = Threw (case lastError v of
                         None \<Rightarrow> undefined_message
                       | Some err \<Rightarrow> failed_to_fetch url retries (message err)),
      attempts = retries, pool_after = s\<rparr>"
  by (subst fetch_loop.simps) simp

lemma fetch_loop_step:
  "attempt < retries \<Longrightarrow>
   fetch_loop url retries env attempt v s =
     (case fetch_attempt url retries (env attempt) attempt v s of
        (Done out, s') \<Rightarrow> \<lparr>outcome = out, attempts = attempt + 1, pool_after = s'\<rparr>
      | (Continue v', s') \<Rightarrow> fetch_loop url retries env (attempt + 1) v' s')"
  by (subst fetch_loop.simps) simp

lemma try_body_blocked:
  assumes "goto obs = Inr (Some http_status)" and "title obs = Inr t"
    and "http_status \<noteq> 404" and "http_status < 500" and "captchaSolved obs"
    and "content obs = Inr html" and "100 \<le> length html" and "bodyText obs = Inr body"
    and "\<not> js_includes body (lit ''Enable JavaScript and cookies to continue'')"
  shows "try_body url obs = Inr (html, isBlocked body html)"
  using assms by (simp add: try_body_def)

lemma try_body_404:
  assumes "goto obs = Inr (Some 404)" and "title obs = Inr t"
  shows "try_body url obs = Inl (page_not_found url)"
  using assms by (simp add: try_body_def)

lemma try_body_5xx:
  assumes "goto obs = Inr (Some http_status)" and "title obs = Inr t" and "500 \<le> http_status"
  shows "try_body url obs = Inl (server_error http_status)"
  using assms by (simp add: try_body_def)

text \<open>A failed attempt that is not the last one: what the loop does next.\<close>

lemma fetch_loop_failed_attempt:
  assumes "try_body url (env attempt) = Inl err" and "attempt + 1 < retries"
  shows "(\<not> (attempt = 1 \<and> \<not> wasRecycled v) \<longrightarrow>
            fetch_loop url retries env attempt v s =
              fetch_loop url retries env (attempt + 1) (v\<lparr>lastError := Some err\<rparr>) s) \<and>
         (attempt = 1 \<and> \<not> wasRecycled v \<longrightarrow>
            (\<forall>p s'. recyclePage (currentPage v) (recycle_failed (env attempt)) s = (Inr p, s') \<longrightarrow>
               fetch_loop url retries env attempt v s =
                 fetch_loop url retries env (attempt + 1)
                   (v\<lparr>lastError := Some err, currentPage := p, wasRecycled := True\<rparr>) s') \<and>
            (\<forall>err' s'. recyclePage (currentPage v) (recycle_failed (env attempt)) s = (Inl err', s') \<longrightarrow>
               fetch_loop url retries env attempt v s =
                 \<lparr>outcome = Threw err', attempts = attempt + 1, pool_after = s'\<rparr>))"
proof -
  have lt: "attempt < retries" using assms(2) by simp
  have fa: "fetch_attempt url retries (env attempt) attempt v s =
              catch_block retries (env attempt) attempt err v s"
    by (simp add: fetch_attempt_def assms(1))
  have st: "fetch_loop url retries env attempt v s =
     (case catch_block retries (env attempt) attempt err v s of
        (Done out, s') \<Rightarrow> \<lparr>outcome = out, attempts = attempt + 1, pool_after = s'\<rparr>
      | (Continue v', s') \<Rightarrow> fetch_loop url retries env (attempt + 1) v' s')"
    by (simp add: fetch_loop_step[OF lt] fa)
  show ?thesis
    unfolding st using assms(2) by (auto simp: catch_block_def Let_def)
qed

lemma fetch_loop_failed_last:
  assumes "try_body url (env attempt) = Inl err" and "attempt + 1 = retries"
  shows "fetch_loop url retries env attempt v s =
           \<lparr>outcome = Threw (failed_to_fetch url retries (message err)),
            attempts = retries, pool_after = s\<rparr>"
proof -
  have lt: "attempt < retries" using assms(2) by simp
  have "fetch_loop url retries env attempt v s =
          fetch_loop url retries env retries (v\<lparr>lastError := Some err\<rparr>) s"
    using assms by (simp add: fetch_loop_step[OF lt] fetch_attempt_last)
  then show ?thesis by (simp add: fetch_loop_exit)
qed


lemma fetch_loop_attempts_gt:
  "attempt < retries \<Longrightarrow> attempt < attempts (fetch_loop url retries env attempt v s)"
proof (induction "retries - attempt" arbitrary: attempt v s)
  case 0
  then show ?case by simp
next
  case (Suc n)
  obtain st s' where fa: "fetch_attempt url retries (env attempt) attempt v s = (st, s')"
    by (cases "fetch_attempt url retries (env attempt) attempt v s")
  show ?case
  proof (cases st)
    case (Done out)
    then show ?thesis using Suc.prems fa by (simp add: fetch_loop_step)
  next
    case (Continue v')
    have eq: "fetch_loop url retries env attempt v s = fetch_loop url retries env (attempt + 1) v' s'"
      using Suc.prems fa Continue by (simp add: fetch_loop_step)
    show ?thesis
    proof (cases "attempt + 1 < retries")
      case True
      have "n = retries - (attempt + 1)" using Suc.hyps(2) by simp
      from Suc.hyps(1)[OF this True, of v' s'] show ?thesis
        unfolding eq by linarith
    next
      case False
      then have "attempt + 1 = retries" using Suc.prems by simp
      then show ?thesis using eq fetch_loop_exit[of url retries env v' s'] by simp
    qed
  qed
qed


text \<open>Every attempt failing, with the recycle after the second failure succeeding.\<close>

lemma fetch_loop_all_failed:
  assumes "\<forall>i. attempt \<le> i \<and> i < retries \<longrightarrow> (\<exists>err. try_body url (env i) = Inl err)"
    and "launch (recycle_failed (env 1)) = None"
    and "newPage (recycle_failed (env 1)) = Inr pnew"
    and "attempt < retries"
  shows "\<exists>err. try_body url (env (retries - 1)) = Inl err \<and>
           outcome (fetch_loop url retries env attempt v s) =
             Threw (failed_to_fetch url retries (message err)) \<and>
           attempts (fetch_loop url retries env attempt v s) = retries"
  using assms(1,4)
proof (induction "retries - attempt" arbitrary: attempt v s)
  case 0
  then show ?case by simp
next
  case (Suc n)
  from Suc.prems obtain err where e: "try_body url (env attempt) = Inl err"
    by blast
  show ?case
  proof (cases "attempt + 1 < retries")
    case False
    then have last: "attempt + 1 = retries" using Suc.prems by simp
    then have a: "attempt = retries - 1" by simp
    show ?thesis
      using fetch_loop_failed_last[where env=env and attempt=attempt and v=v and s=s, OF e last] e a by auto
  next
    case True
    have n: "n = retries - (attempt + 1)" using Suc.hyps(2) by simp
    have later: "\<forall>i. attempt + 1 \<le> i \<and> i < retries \<longrightarrow> (\<exists>err. try_body url (env i) = Inl err)"
      using Suc.prems(1) by simp
    note ih = Suc.hyps(1)[OF n later True]
    note step = fetch_loop_failed_attempt[where env=env and attempt=attempt and v=v and s=s, OF e True]
    show ?thesis
    proof (cases "attempt = 1 \<and> \<not> wasRecycled v")
      case False
      then have "fetch_loop url retries env attempt v s =
              fetch_loop url retries env (attempt + 1) (v\<lparr>lastError := Some err\<rparr>) s"
        using step by blast
      then show ?thesis using ih by simp
    next
      case c: True
      obtain res s' where rp: "recyclePage (currentPage v) (recycle_failed (env attempt)) s = (res, s')"
        by (cases "recyclePage (currentPage v) (recycle_failed (env attempt)) s")
      have "fst (recyclePage (currentPage v) (recycle_failed (env attempt)) s) = Inr pnew"
        using c assms(2,3) by (simp add: recyclePage_ok)
      then have "res = Inr pnew" using rp by simp
      then have "fetch_loop url retries env attempt v s =
                 fetch_loop url retries env (attempt + 1)
                   (v\<lparr>lastError := Some err, currentPage := pnew, wasRecycled := True\<rparr>) s'"
        using step c rp by blast
      then show ?thesis using ih by simp
    qed
  qed
qed

lemma ex_pool3_no_recycle: "\<not> shouldRecycle (getPageStats t ex_pool3 1)"
  by (simp add: getPageStats_def ex_pool3_eq)

lemma ex_url_nonempty: "ex_url \<noteq> []"
  by (simp add: ex_url_def lit_def)

lemma fetchPage_loop:
  "url \<noteq> [] \<Longrightarrow> \<not> shouldRecycle (getPageStats (stats_time env) s pg) \<Longrightarrow>
     fetchPage url pg retries env s =
       fetch_loop url retries (attempt_env env) 0
         \<lparr>currentPage = pg, wasRecycled = False, lastError = None\<rparr> s"
  by (simp add: fetchPage_def)

lemma ex_all_failed:
  assumes "http_status = 404 \<or> 500 \<le> http_status"
  shows "\<forall>i. 0 \<le> i \<and> i < retries \<longrightarrow>
           (\<exists>err. try_body ex_url (attempt_env (ex_fetch_env http_status) i) = Inl err)"
  using assms by (auto simp: try_body_def ex_fetch_env_def ex_response_def)

text \<open>
  Against claim C1 as it is stated: with three attempts allowed and a 404 on each, the
  call makes all three attempts before it fails.
\<close>

theorem not_found_counterexample:
  "attempts (fetchPage ex_url 1 3 (ex_fetch_env 404) ex_pool3) = 3 \<and>
   outcome (fetchPage ex_url 1 3 (ex_fetch_env 404) ex_pool3) =
     Threw (failed_to_fetch ex_url 3 (lit ''Page not found: '' @ ex_url))"
proof -
  have l: "fetchPage ex_url 1 3 (ex_fetch_env 404) ex_pool3 =
       fetch_loop ex_url 3 (attempt_env (ex_fetch_env 404)) 0
         \<lparr>currentPage = 1, wasRecycled = False, lastError = None\<rparr> ex_pool3"
    by (rule fetchPage_loop[OF ex_url_nonempty ex_pool3_no_recycle])
  have last: "try_body ex_url (attempt_env (ex_fetch_env 404) (3 - 1)) = Inl (page_not_found ex_url)"
    by (simp add: try_body_def ex_fetch_env_def ex_response_def)
  from fetch_loop_all_failed[where url=ex_url and env="attempt_env (ex_fetch_env 404)"
      and retries=3 and attempt=0 and pnew=9
      and v="\<lparr>currentPage = 1, wasRecycled = False, lastError = None\<rparr>" and s=ex_pool3,
      OF ex_all_failed]
  show ?thesis
    unfolding l last by (simp add: ex_fetch_env_def ex_response_def ex_create_def page_not_found_def)
qed

lemma ex_recycle: "recyclePage 1 (ex_create 9 90) ex_pool3 = (Inr 9, ex_pool_recycled)"
proof -
  have "fst (recyclePage 1 (ex_create 9 90) ex_pool3) = Inr 9"
    by (rule recyclePage_ok) (simp_all add: ex_create_def)
  then show ?thesis
    by (simp add: ex_pool_recycled_def prod_eq_iff)
qed







lemma loop_state_fetch_loop:
  "loop_state url retries env k v s = Some (v', s') \<Longrightarrow>
     k \<le> retries \<and> fetch_loop url retries env 0 v s = fetch_loop url retries env k v' s'"
proof (induction k arbitrary: v' s')
  case 0
  then show ?case by simp
next
  case (Suc k)
  from Suc.prems obtain w x where st: "loop_state url retries env k v s = Some (w, x)"
    and lt: "k < retries"
    and fa: "fetch_attempt url retries (env k) k w x = (Continue v', s')"
    by (auto split: option.splits if_splits prod.splits step.splits)
  from Suc.IH[OF st] have eq: "fetch_loop url retries env 0 v s = fetch_loop url retries env k w x"
    by simp
  have "fetch_loop url retries env k w x = fetch_loop url retries env (k + 1) v' s'"
    using lt fa by (simp add: fetch_loop_step)
  then show ?case
    using eq lt by simp
qed

lemma fetchPage_entry:
  "loop_entry url pg env s = Some (v, s') \<Longrightarrow>
     url \<noteq> [] \<and> fetchPage url pg retries env s = fetch_loop url retries (attempt_env env) 0 v s'"
  by (auto simp: loop_entry_def fetchPage_def split: if_splits prod.splits sum.splits)

text \<open>A call that reaches attempt \<open>k\<close> ends as the loop does from there.\<close>

lemma fetchPage_attempt_state:
  assumes "attempt_state url pg retries env s k = Some (v, s')"
  shows "k \<le> retries" and "url \<noteq> []"
    and "fetchPage url pg retries env s = fetch_loop url retries (attempt_env env) k v s'"
proof -
  from assms obtain w x where e: "loop_entry url pg env s = Some (w, x)"
    and l: "loop_state url retries (attempt_env env) k w x = Some (v, s')"
    by (auto simp: attempt_state_def split: option.splits)
  show "k \<le> retries"
    using loop_state_fetch_loop[OF l] by simp
  show "url \<noteq> []"
    using fetchPage_entry[OF e] by simp
  show "fetchPage url pg retries env s = fetch_loop url retries (attempt_env env) k v s'"
    using fetchPage_entry[OF e, of retries] loop_state_fetch_loop[OF l] by simp
qed

lemma attempt_state_Suc:
  assumes "attempt_state url pg retries env s k = Some (v, s')" and "k < retries"
    and "fetch_attempt url retries (attempt_env env k) k v s' = (Continue v', s'')"
  shows "attempt_state url pg retries env s (k + 1) = Some (v', s'')"
  using assms by (auto simp: attempt_state_def split: option.splits)

lemma loop_state_cong:
  "(\<And>i. i < k \<Longrightarrow> env i = env' i) \<Longrightarrow>
     loop_state url retries env k v s = loop_state url retries env' k v s"
  by (induction k) (simp_all split: option.splits)

lemma attempt_state_cong:
  assumes "stats_time env' = stats_time env" and "recycle_first env' = recycle_first env"
    and "\<And>i. i < k \<Longrightarrow> attempt_env env' i = attempt_env env i"
  shows "attempt_state url pg retries env' s k = attempt_state url pg retries env s k"
proof -
  have "loop_entry url pg env' s = loop_entry url pg env s"
    by (simp add: loop_entry_def assms(1,2))
  moreover have "loop_state url retries (attempt_env env') k v x =
      loop_state url retries (attempt_env env) k v x" for v x
    by (rule loop_state_cong) (rule assms(3))
  ultimately show ?thesis
    by (simp add: attempt_state_def split: option.splits)
qed

text \<open>
  Claim C10. A call that reaches its last attempt (\<open>attempt + 1 = retries\<close>) and finds there a
  page that passes the content checks and that the block heuristic flags returns: the
  result of \<^verbatim>\<open>fetchPage\<close> is the page's HTML with the current page and the recycled flag as
  they were when the attempt began, no error is thrown, and the pool is the one the attempt
  began with, so nothing was recycled. The result is the one the call has when the text of
  that last page is not flagged.
\<close>

theorem blocked_on_final_attempt:
  assumes "attempt_state url pg retries env s attempt = Some (v, s')"
    and "attempt + 1 = retries"
    and "goto (attempt_env env attempt) = Inr (Some http_status)"
    and "title (attempt_env env attempt) = Inr t"
    and "http_status \<noteq> 404" and "http_status < 500" and "captchaSolved (attempt_env env attempt)"
    and "content (attempt_env env attempt) = Inr html" and "100 \<le> length html"
    and "bodyText (attempt_env env attempt) = Inr body"
    and "\<not> js_includes body (lit ''Enable JavaScript and cookies to continue'')"
    and "isBlocked body html"
  shows "fetchPage url pg retries env s =
           \<lparr>outcome = Returned html (currentPage v) (wasRecycled v),
            attempts = retries, pool_after = s'\<rparr> \<and>
         (\<not> isBlocked body' html \<and>
          \<not> js_includes body' (lit ''Enable JavaScript and cookies to continue'') \<longrightarrow>
            fetchPage url pg retries
              (env\<lparr>attempt_env := (attempt_env env)
                 (attempt := (attempt_env env attempt)\<lparr>bodyText := Inr body'\<rparr>)\<rparr>) s =
            fetchPage url pg retries env s)"
proof -
  have lt: "attempt < retries"
    using assms(2) by simp
  have tb: "try_body url (attempt_env env attempt) = Inr (html, True)"
    using try_body_blocked[OF assms(3-11), of url] assms(12) by simp
  have r: "fetchPage url pg retries env s =
           \<lparr>outcome = Returned html (currentPage v) (wasRecycled v),
            attempts = retries, pool_after = s'\<rparr>"
    unfolding fetchPage_attempt_state(3)[OF assms(1)]
    using assms(2) by (simp add: fetch_loop_step[OF lt] fetch_attempt_last tb)
  have g: "fetchPage url pg retries
              (env\<lparr>attempt_env := (attempt_env env)
                 (attempt := (attempt_env env attempt)\<lparr>bodyText := Inr body'\<rparr>)\<rparr>) s =
            fetchPage url pg retries env s"
    if nb: "\<not> isBlocked body' html \<and>
          \<not> js_includes body' (lit ''Enable JavaScript and cookies to continue'')"
  proof -
    let ?obs = "(attempt_env env attempt)\<lparr>bodyText := Inr body'\<rparr>"
    let ?env = "env\<lparr>attempt_env := (attempt_env env)(attempt := ?obs)\<rparr>"
    have st: "attempt_state url pg retries ?env s attempt = Some (v, s')"
      unfolding assms(1)[symmetric] by (rule attempt_state_cong) simp_all
    have tb': "try_body url ?obs = Inr (html, False)"
      using try_body_blocked[of ?obs http_status t html body' url] assms(3-9) nb by simp
    show ?thesis
      unfolding fetchPage_attempt_state(3)[OF st] r
      using assms(2) by (simp add: fetch_loop_step[OF lt] fetch_attempt_last tb')
  qed
  show ?thesis
    using r g by blast
qed

lemma attempt_state_0:
  "url \<noteq> [] \<Longrightarrow> \<not> shouldRecycle (getPageStats (stats_time env) s pg) \<Longrightarrow>
     attempt_state url pg retries env s 0 =
       Some (\<lparr>currentPage = pg, wasRecycled = False, lastError = None\<rparr>, s)"
  by (simp add: attempt_state_def loop_entry_def)

text \<open>An attempt that throws in its \<^verbatim>\<open>try\<close> block, in a call that goes on.\<close>

lemma attempt_state_failed:
  assumes "attempt_state url pg retries env s k = Some (v, s')" and "k + 1 < retries"
    and "try_body url (attempt_env env k) = Inl err"
  shows "\<not> (k = 1 \<and> \<not> wasRecycled v) \<Longrightarrow>
           attempt_state url pg retries env s (k + 1) = Some (v\<lparr>lastError := Some err\<rparr>, s')"
    and "k = 1 \<and> \<not> wasRecycled v \<Longrightarrow>
           recyclePage (currentPage v) (recycle_failed (attempt_env env k)) s' = (Inr p, s'') \<Longrightarrow>
           attempt_state url pg retries env s (k + 1) =
             Some (v\<lparr>lastError := Some err, currentPage := p, wasRecycled := True\<rparr>, s'')"
proof -
  have lt: "k < retries" using assms(2) by simp
  have fa: "fetch_attempt url retries (attempt_env env k) k v s' =
              catch_block retries (attempt_env env k) k err v s'"
    by (simp add: fetch_attempt_def assms(3))
  show "attempt_state url pg retries env s (k + 1) = Some (v\<lparr>lastError := Some err\<rparr>, s')"
    if "\<not> (k = 1 \<and> \<not> wasRecycled v)"
  proof -
    have "fetch_attempt url retries (attempt_env env k) k v s' =
        (Continue (v\<lparr>lastError := Some err\<rparr>), s')"
      unfolding fa using that by (auto simp: catch_block_def Let_def)
    then show ?thesis
      by (rule attempt_state_Suc[OF assms(1) lt])
  qed
  show "attempt_state url pg retries env s (k + 1) =
             Some (v\<lparr>lastError := Some err, currentPage := p, wasRecycled := True\<rparr>, s'')"
    if "k = 1 \<and> \<not> wasRecycled v"
      and "recyclePage (currentPage v) (recycle_failed (attempt_env env k)) s' = (Inr p, s'')"
  proof -
    have "fetch_attempt url retries (attempt_env env k) k v s' =
        (Continue (v\<lparr>lastError := Some err, currentPage := p, wasRecycled := True\<rparr>), s'')"
      unfolding fa using that assms(2) by (auto simp: catch_block_def Let_def)
    then show ?thesis
      by (rule attempt_state_Suc[OF assms(1) lt])
  qed
qed

lemma try_body_404_error:
  assumes "goto obs = Inr (Some 404)"
  shows "try_body url obs = Inl (case title obs of Inl e \<Rightarrow> e | Inr t \<Rightarrow> page_not_found url)"
  using assms by (simp add: try_body_def split: sum.splits)

text \<open>
  Claim C1, as the code has it. A response with status 404 fails the attempt it occurs in,
  with \<^verbatim>\<open>Page not found: url\<close> (or with the error of \<^verbatim>\<open>title()\<close>, which is asked first, when
  that throws), and the catch block treats the failure as any other. On the last attempt
  \<^verbatim>\<open>fetchPage\<close> throws the exhausted-retries error with the failure's message. On an earlier
  attempt the call goes on to the next attempt, so it makes more attempts than the one
  with the 404; only after the second attempt of a call that has not recycled yet the
  session is recycled first, and when that recycle throws, its error leaves the call.
\<close>

theorem not_found_is_retried:
  assumes "attempt_state url pg retries env s attempt = Some (v, s')" and "attempt < retries"
    and "goto (attempt_env env attempt) = Inr (Some 404)"
    and "err = (case title (attempt_env env attempt) of
                  Inl e \<Rightarrow> e | Inr t \<Rightarrow> page_not_found url)"
  shows
    "(attempt + 1 = retries \<longrightarrow>
        fetchPage url pg retries env s =
          \<lparr>outcome = Threw (failed_to_fetch url retries (message err)),
           attempts = retries, pool_after = s'\<rparr>) \<and>
     (attempt + 1 < retries \<and> \<not> (attempt = 1 \<and> \<not> wasRecycled v) \<longrightarrow>
        attempt_state url pg retries env s (attempt + 1) =
          Some (v\<lparr>lastError := Some err\<rparr>, s') \<and>
        attempt + 1 < attempts (fetchPage url pg retries env s)) \<and>
     (attempt + 1 < retries \<and> attempt = 1 \<and> \<not> wasRecycled v \<longrightarrow>
        (\<forall>p s''. recyclePage (currentPage v) (recycle_failed (attempt_env env attempt)) s' =
                   (Inr p, s'') \<longrightarrow>
           attempt_state url pg retries env s (attempt + 1) =
             Some (v\<lparr>lastError := Some err, currentPage := p, wasRecycled := True\<rparr>, s'') \<and>
           attempt + 1 < attempts (fetchPage url pg retries env s)) \<and>
        (\<forall>e s''. recyclePage (currentPage v) (recycle_failed (attempt_env env attempt)) s' =
                   (Inl e, s'') \<longrightarrow>
           fetchPage url pg retries env s =
             \<lparr>outcome = Threw e, attempts = attempt + 1, pool_after = s''\<rparr>)) \<and>
     ((\<exists>t. title (attempt_env env attempt) = Inr t) \<longrightarrow>
        message err = lit ''Page not found: '' @ url)"
proof -
  have e: "try_body url (attempt_env env attempt) = Inl err"
    unfolding assms(4) using assms(3) by (rule try_body_404_error)
  note fp = fetchPage_attempt_state(3)[OF assms(1)]
  have gt: "attempt + 1 < attempts (fetchPage url pg retries env s)"
    if "attempt_state url pg retries env s (attempt + 1) = Some (w, x)"
      and "attempt + 1 < retries" for w x
    unfolding fetchPage_attempt_state(3)[OF that(1)] using that(2) by (rule fetch_loop_attempts_gt)
  show ?thesis
  proof (intro conjI impI allI)
    assume "attempt + 1 = retries"
    from fetch_loop_failed_last[where env="attempt_env env" and attempt=attempt and v=v and s=s',
        OF e this]
    show "fetchPage url pg retries env s =
          \<lparr>outcome = Threw (failed_to_fetch url retries (message err)),
           attempts = retries, pool_after = s'\<rparr>"
      by (simp add: fp)
  next
    assume a: "attempt + 1 < retries \<and> \<not> (attempt = 1 \<and> \<not> wasRecycled v)"
    then show st: "attempt_state url pg retries env s (attempt + 1) =
          Some (v\<lparr>lastError := Some err\<rparr>, s')"
      by (intro attempt_state_failed(1)[OF assms(1) _ e]) simp_all
    show "attempt + 1 < attempts (fetchPage url pg retries env s)"
      using gt[OF st] a by simp
  next
    fix p s''
    assume a: "attempt + 1 < retries \<and> attempt = 1 \<and> \<not> wasRecycled v"
      and r: "recyclePage (currentPage v) (recycle_failed (attempt_env env attempt)) s' =
                   (Inr p, s'')"
    then show st: "attempt_state url pg retries env s (attempt + 1) =
             Some (v\<lparr>lastError := Some err, currentPage := p, wasRecycled := True\<rparr>, s'')"
      by (intro attempt_state_failed(2)[OF assms(1) _ e]) simp_all
    show "attempt + 1 < attempts (fetchPage url pg retries env s)"
      using gt[OF st] a by simp
  next
    fix e' s''
    assume a: "attempt + 1 < retries \<and> attempt = 1 \<and> \<not> wasRecycled v"
      and r: "recyclePage (currentPage v) (recycle_failed (attempt_env env attempt)) s' =
                   (Inl e', s'')"
    have lt: "attempt + 1 < retries" using a by simp
    from fetch_loop_failed_attempt[where env="attempt_env env" and attempt=attempt and v=v
        and s=s', OF e lt] a r
    show "fetchPage url pg retries env s =
             \<lparr>outcome = Threw e', attempts = attempt + 1, pool_after = s''\<rparr>"
      unfolding fp by blast
  next
    assume "\<exists>t. title (attempt_env env attempt) = Inr t"
    then show "message err = lit ''Page not found: '' @ url"
      unfolding assms(4) by (auto simp: page_not_found_def)
  qed
qed




text \<open>The example calls, attempt by attempt.\<close>

lemma ex_attempt_state_0:
  "attempt_state ex_url 1 retries env ex_pool3 0 =
     Some (\<lparr>currentPage = 1, wasRecycled = False, lastError = None\<rparr>, ex_pool3)"
  by (rule attempt_state_0[OF ex_url_nonempty ex_pool3_no_recycle])

lemma ex_not_found_state_1:
  "attempt_state ex_url 1 3 (ex_fetch_env 404) ex_pool3 1 =
     Some (\<lparr>currentPage = 1, wasRecycled = False, lastError = Some (page_not_found ex_url)\<rparr>,
           ex_pool3)"
proof -
  have tb: "try_body ex_url (attempt_env (ex_fetch_env 404) 0) = Inl (page_not_found ex_url)"
    by (simp add: try_body_def ex_fetch_env_def ex_response_def)
  from attempt_state_failed(1)[OF ex_attempt_state_0 _ tb]
  show ?thesis by simp
qed

theorem not_found_is_retried_witness:
  "attempt_state ex_url 1 3 (ex_fetch_env 404) ex_pool3 1 =
     Some (\<lparr>currentPage = 1, wasRecycled = False, lastError = Some (page_not_found ex_url)\<rparr>,
           ex_pool3) \<and>
   (1::nat) < 3 \<and> goto (attempt_env (ex_fetch_env 404) 1) = Inr (Some 404) \<and>
   title (attempt_env (ex_fetch_env 404) 1) = Inr (lit ''Example'') \<and>
   recyclePage 1 (recycle_failed (attempt_env (ex_fetch_env 404) 1)) ex_pool3 =
     (Inr 9, ex_pool_recycled) \<and>
   attempt_state ex_url 1 3 (ex_fetch_env 404) ex_pool3 2 =
     Some (\<lparr>currentPage = 9, wasRecycled = True, lastError = Some (page_not_found ex_url)\<rparr>,
           ex_pool_recycled) \<and>
   2 < attempts (fetchPage ex_url 1 3 (ex_fetch_env 404) ex_pool3) \<and>
   fetchPage ex_url 1 3 (ex_fetch_env 404) ex_pool3 =
     \<lparr>outcome = Threw (failed_to_fetch ex_url 3 (lit ''Page not found: '' @ ex_url)),
      attempts = 3, pool_after = ex_pool_recycled\<rparr> \<and>
   goto (attempt_env ex_not_found_crash_env 1) = Inr (Some 404) \<and>
   fst (recyclePage 1 (recycle_failed (attempt_env ex_not_found_crash_env 1)) ex_pool3) =
     Inl (Error (lit ''Target closed'')) \<and>
   outcome (fetchPage ex_url 1 3 ex_not_found_crash_env ex_pool3) =
     Threw (Error (lit ''Target closed'')) \<and>
   attempts (fetchPage ex_url 1 3 ex_not_found_crash_env ex_pool3) = 2"
proof -
  let ?env = "ex_fetch_env 404"
  let ?v1 = "\<lparr>currentPage = 1, wasRecycled = False, lastError = Some (page_not_found ex_url)\<rparr>"
  let ?v2 = "\<lparr>currentPage = 9, wasRecycled = True, lastError = Some (page_not_found ex_url)\<rparr>"
  have g: "goto (attempt_env ?env i) = Inr (Some 404)" for i
    by (simp add: ex_fetch_env_def ex_response_def)
  have t: "title (attempt_env ?env i) = Inr (lit ''Example'')" for i
    by (simp add: ex_fetch_env_def ex_response_def)
  have e: "page_not_found ex_url =
      (case title (attempt_env ?env i) of Inl e \<Rightarrow> e | Inr t \<Rightarrow> page_not_found ex_url)" for i
    by (simp add: t)
  have r: "recyclePage 1 (recycle_failed (attempt_env ?env 1)) ex_pool3 = (Inr 9, ex_pool_recycled)"
    using ex_recycle by (simp add: ex_fetch_env_def ex_response_def)
  have lt: "(1::nat) < 3" "(2::nat) < 3"
    by simp_all
  have hc: "(1::nat) + 1 < 3 \<and> (1::nat) = 1 \<and> \<not> wasRecycled ?v1"
    by simp
  have r': "recyclePage (currentPage ?v1) (recycle_failed (attempt_env ?env 1)) ex_pool3 =
      (Inr 9, ex_pool_recycled)"
    using r by simp
  note a = not_found_is_retried[where attempt=1 and retries=3, OF ex_not_found_state_1 lt(1) g e,
      THEN conjunct2, THEN conjunct2, THEN conjunct1, THEN mp, OF hc, THEN conjunct1,
      THEN spec, THEN spec, THEN mp, OF r']
  have s2: "attempt_state ex_url 1 3 ?env ex_pool3 (1 + 1) = Some (?v2, ex_pool_recycled)"
    and n2: "1 + 1 < attempts (fetchPage ex_url 1 3 ?env ex_pool3)"
    using a by simp_all
  have s2': "attempt_state ex_url 1 3 ?env ex_pool3 2 = Some (?v2, ex_pool_recycled)"
    using s2 by (simp only: one_add_one)
  note b = not_found_is_retried[where attempt=2 and retries=3, OF s2' lt(2) g e,
      THEN conjunct1, THEN mp]
  have f: "fetchPage ex_url 1 3 ?env ex_pool3 =
     \<lparr>outcome = Threw (failed_to_fetch ex_url 3 (lit ''Page not found: '' @ ex_url)),
      attempts = 3, pool_after = ex_pool_recycled\<rparr>"
    using b by (simp add: page_not_found_def)
  let ?crash = "ex_not_found_crash_env"
  have gc: "goto (attempt_env ?crash i) = Inr (Some 404)" for i
    by (simp add: ex_not_found_crash_env_def ex_response_def)
  have ec: "page_not_found ex_url =
      (case title (attempt_env ?crash i) of Inl e \<Rightarrow> e | Inr t \<Rightarrow> page_not_found ex_url)" for i
    by (simp add: ex_not_found_crash_env_def ex_response_def)
  have tbc: "try_body ex_url (attempt_env ?crash 0) = Inl (page_not_found ex_url)"
    by (simp add: try_body_def ex_not_found_crash_env_def ex_response_def)
  from attempt_state_failed(1)[OF ex_attempt_state_0 _ tbc, of 3]
  have c1: "attempt_state ex_url 1 3 ?crash ex_pool3 1 = Some (?v1, ex_pool3)"
    by simp
  obtain res x where rp:
    "recyclePage 1 (recycle_failed (attempt_env ?crash 1)) ex_pool3 = (res, x)"
    by (cases "recyclePage 1 (recycle_failed (attempt_env ?crash 1)) ex_pool3")
  have res: "res = Inl (Error (lit ''Target closed''))"
    using rp by (auto simp: recyclePage_def getPage_def initBrowser_def ex_pool3_eq
        ex_not_found_crash_env_def ex_response_def ex_create_def Let_def)
  have rc: "recyclePage (currentPage ?v1) (recycle_failed (attempt_env ?crash 1)) ex_pool3 =
      (Inl (Error (lit ''Target closed'')), x)"
    using rp res by simp
  note c = not_found_is_retried[where attempt=1 and retries=3, OF c1 lt(1) gc ec,
      THEN conjunct2, THEN conjunct2, THEN conjunct1, THEN mp, OF hc, THEN conjunct2,
      THEN spec, THEN spec, THEN mp, OF rc]
  have fr: "fst (recyclePage 1 (recycle_failed (attempt_env ?crash 1)) ex_pool3) =
      Inl (Error (lit ''Target closed''))"
    using rp res by simp
  have oc: "outcome (fetchPage ex_url 1 3 ?crash ex_pool3) = Threw (Error (lit ''Target closed''))"
    and ac: "attempts (fetchPage ex_url 1 3 ?crash ex_pool3) = 2"
    using c by simp_all
  show ?thesis
    using n2 by (intro conjI ex_not_found_state_1 lt g t r s2' f gc fr oc ac) simp
qed

lemma ex_blocked_state_2:
  "attempt_state ex_url 1 3 ex_blocked_env ex_pool3 2 =
     Some (\<lparr>currentPage = 9, wasRecycled = True, lastError = Some (server_error 503)\<rparr>,
           ex_pool_recycled)"
proof -
  have tb: "try_body ex_url (attempt_env ex_blocked_env i) = Inl (server_error 503)"
    if "i < 2" for i
    using that by (simp add: try_body_def ex_blocked_env_def ex_response_def)
  from attempt_state_failed(1)[OF ex_attempt_state_0 _ tb[of 0], of 3]
  have s1: "attempt_state ex_url 1 3 ex_blocked_env ex_pool3 1 =
      Some (\<lparr>currentPage = 1, wasRecycled = False, lastError = Some (server_error 503)\<rparr>, ex_pool3)"
    by simp
  have r: "recyclePage 1 (recycle_failed (attempt_env ex_blocked_env 1)) ex_pool3 =
      (Inr 9, ex_pool_recycled)"
    using ex_recycle by (simp add: ex_blocked_env_def ex_response_def)
  have "attempt_state ex_url 1 3 ex_blocked_env ex_pool3 (1 + 1) =
      Some (\<lparr>currentPage = 1, wasRecycled = False, lastError = Some (server_error 503)\<rparr>
              \<lparr>lastError := Some (server_error 503), currentPage := 9, wasRecycled := True\<rparr>,
            ex_pool_recycled)"
    by (rule attempt_state_failed(2)[OF s1 _ tb]) (use r in simp_all)
  then show ?thesis
    by (simp only: one_add_one) simp
qed

theorem blocked_on_final_attempt_witness:
  "attempt_state ex_url 1 3 ex_blocked_env ex_pool3 2 =
     Some (\<lparr>currentPage = 9, wasRecycled = True, lastError = Some (server_error 503)\<rparr>,
           ex_pool_recycled) \<and>
   (2::nat) + 1 = 3 \<and> goto (attempt_env ex_blocked_env 2) = Inr (Some 200) \<and>
   title (attempt_env ex_blocked_env 2) = Inr (lit ''Example'') \<and>
   (200::nat) \<noteq> 404 \<and> (200::nat) < 500 \<and> captchaSolved (attempt_env ex_blocked_env 2) \<and>
   content (attempt_env ex_blocked_env 2) = Inr (replicate 200 32) \<and>
   100 \<le> length (replicate 200 (32::nat)) \<and>
   bodyText (attempt_env ex_blocked_env 2) = Inr (lit ''access denied'') \<and>
   \<not> js_includes (lit ''access denied'') (lit ''Enable JavaScript and cookies to continue'') \<and>
   isBlocked (lit ''access denied'') (replicate 200 32) \<and>
   fetchPage ex_url 1 3 ex_blocked_env ex_pool3 =
     \<lparr>outcome = Returned (replicate 200 32) 9 True, attempts = 3,
      pool_after = ex_pool_recycled\<rparr>"
proof -
  have h: "(2::nat) + 1 = 3" "goto (attempt_env ex_blocked_env 2) = Inr (Some 200)"
    "title (attempt_env ex_blocked_env 2) = Inr (lit ''Example'')"
    "(200::nat) \<noteq> 404" "(200::nat) < 500"
    "captchaSolved (attempt_env ex_blocked_env 2)"
    "content (attempt_env ex_blocked_env 2) = Inr (replicate 200 32)"
    "100 \<le> length (replicate 200 (32::nat))"
    "bodyText (attempt_env ex_blocked_env 2) = Inr (lit ''access denied'')"
    "\<not> js_includes (lit ''access denied'') (lit ''Enable JavaScript and cookies to continue'')"
    "isBlocked (lit ''access denied'') (replicate 200 32)"
    by (simp_all add: ex_blocked_env_def ex_blocked_page_def isBlocked_def lit_def)
  note r = blocked_on_final_attempt[OF ex_blocked_state_2 h, THEN conjunct1]
  show ?thesis
    using r by (intro conjI ex_blocked_state_2 h) simp
qed

section \<open>Properties of the glyph decoder\<close>

lemma String_nat_digit: "n < 10 \<Longrightarrow> String_nat n = [48 + n]"
  by (simp add: String_nat.simps)

lemma String_nat_step: "10 \<le> n \<Longrightarrow> String_nat n = String_nat (n div 10) @ [48 + n mod 10]"
  by (subst String_nat.simps) simp

lemma Math_round_of_nat: "Math_round (real n) = int n"
  unfolding Math_round_def by linarith

lemma ex_realLetter:
  "realLetter cat (ex_glyph w) =
     js_or (cat (String_nat w @ lit ''x10'')) (cat (lit ''600x'' @ String_nat w @ lit ''x10''))"
proof -
  have h: "Math_round (19 / 2) = 10"
    by (simp add: Math_round_def)
  have a: "Math_round 600 = 600"
    by (simp add: Math_round_def)
  have s10: "String_nat 10 = lit ''10''" and s600: "String_nat 600 = lit ''600''"
    by (simp_all add: String_nat_step String_nat_digit lit_def)
  show ?thesis
    by (simp add: realLetter_def ex_glyph_def number_or_zero_def Math_round_of_nat h a
          String_int_def String_number_def s10 s600 Let_def lit_def)
qed

lemma ex_lookup:
  "lookup_phase ex_catalog (cmap ex_font51) [] = Inr (zip (butlast ALL_LETTERS) (tl ALL_LETTERS))"
  by (simp add: ex_font51_def ex_realLetter js_or_def fromCharCode_def ex_next_letter_def
        FULL_ALPHABET_def ALL_LETTERS_def String_nat_step String_nat_digit lit_def)

lemma lookup_phase_distinct:
  "lookup_phase fontMapping cm d0 = Inr d \<Longrightarrow> distinct (map fst d0) \<Longrightarrow> distinct (map fst d)"
  by (induction fontMapping cm d0 rule: lookup_phase.induct)
     (auto simp: AList.distinct_update split: option.splits if_splits)

lemma lookup_phase_no_hit:
  assumes "\<forall>entry \<in> set cm. \<exists>g. snd entry = Some g \<and>
             (realLetter fontMapping g = None \<or> realLetter fontMapping g = Some [])"
  shows "lookup_phase fontMapping cm d0 = Inr d0"
  using assms
  by (induction fontMapping cm d0 rule: lookup_phase.induct) auto

lemma foldl_missing:
  "foldl (\<lambda>m char. if char \<notin> E then Some char else m) acc xs =
     (if filter (\<lambda>x. x \<notin> E) xs = [] then acc else Some (last (filter (\<lambda>x. x \<notin> E) xs)))"
  by (induction xs rule: rev_induct) auto

lemma missing_singleton:
  assumes "set letters - set existing = {k}"
  shows "missing existing letters = Some k"
proof -
  let ?ys = "filter (\<lambda>x. x \<notin> set existing) letters"
  have s: "set ?ys = {k}"
    using assms by auto
  then have ne: "?ys \<noteq> []"
    by (metis empty_set insert_not_empty)
  then have "last ?ys \<in> set ?ys"
    by (rule last_in_set)
  then have "last ?ys = k"
    using s by (metis singletonD)
  then show ?thesis
    using ne by (simp add: missing_def foldl_missing)
qed

lemma distinct_FULL_ALPHABET: "distinct FULL_ALPHABET"
  by (simp add: FULL_ALPHABET_def lit_def)

lemma distinct_ALL_LETTERS: "distinct ALL_LETTERS"
  unfolding ALL_LETTERS_def
  by (simp add: distinct_map distinct_FULL_ALPHABET inj_on_def)

lemma TOTAL_LETTERS_52: "TOTAL_LETTERS = 52"
  by (simp add: TOTAL_LETTERS_def ALL_LETTERS_def FULL_ALPHABET_def lit_def)

lemma card_ALL_LETTERS: "card (set ALL_LETTERS) = 52"
  using distinct_card[OF distinct_ALL_LETTERS] TOTAL_LETTERS_52
  by (simp add: TOTAL_LETTERS_def)

text \<open>One element of the alphabet is left when 51 distinct letters are taken away.\<close>

lemma one_letter_left:
  assumes "distinct xs" and "length xs = TOTAL_LETTERS - 1" and "set xs \<subseteq> set ALL_LETTERS"
  shows "\<exists>k. set ALL_LETTERS - set xs = {k}"
proof -
  have "card (set xs) = 51"
    using assms(1,2) by (simp add: distinct_card TOTAL_LETTERS_52)
  then have "card (set ALL_LETTERS - set xs) = 1"
    using assms(3) by (simp add: card_Diff_subset card_ALL_LETTERS)
  then show ?thesis
    by (rule card_1_singletonE) blast
qed

lemma update_fresh: "k \<notin> fst ` set al \<Longrightarrow> AList.update k v al = al @ [(k, v)]"
  by (induction al) auto

lemma gap_completion_51:
  assumes "distinct (map fst dec)" and "length dec = TOTAL_LETTERS - 1"
    and "set (map fst dec) \<subseteq> set ALL_LETTERS"
    and "set (map snd dec) \<subseteq> set ALL_LETTERS" and "distinct (map snd dec)"
  shows "\<exists>k v. set ALL_LETTERS - set (map fst dec) = {k} \<and>
               set ALL_LETTERS - set (map snd dec) = {v} \<and>
               gap_completion dec = dec @ [(k, v)]"
proof -
  from one_letter_left[OF assms(1) _ assms(3)] assms(2)
  obtain k where k: "set ALL_LETTERS - set (map fst dec) = {k}"
    by auto
  from one_letter_left[OF assms(5) _ assms(4)] assms(2)
  obtain v where v: "set ALL_LETTERS - set (map snd dec) = {v}"
    by auto
  have "k \<notin> fst ` set dec"
    using k by auto
  then have "AList.update k v dec = dec @ [(k, v)]"
    by (rule update_fresh)
  then have "gap_completion dec = dec @ [(k, v)]"
    using assms(2) by (simp add: gap_completion_def missing_singleton[OF k] missing_singleton[OF v])
  with k v show ?thesis by blast
qed

lemma map_of_bij:
  assumes "distinct (map fst al)" and "distinct (map snd al)"
  shows "bij_betw (\<lambda>c. the (map_of al c)) (set (map fst al)) (set (map snd al))"
proof -
  have val: "the (map_of al (fst p)) = snd p" if "p \<in> set al" for p
    using assms(1) that by (cases p) simp
  have inj_snd: "inj_on snd (set al)"
    using assms(2) by (simp add: distinct_map)
  show ?thesis
    unfolding bij_betw_def
  proof
    show "inj_on (\<lambda>c. the (map_of al c)) (set (map fst al))"
    proof (rule inj_onI)
      fix x y
      assume "x \<in> set (map fst al)" and "y \<in> set (map fst al)"
        and e: "the (map_of al x) = the (map_of al y)"
      then obtain p q where p: "p \<in> set al" "x = fst p" and q: "q \<in> set al" "y = fst q"
        by auto
      then have "snd p = snd q"
        using e val by simp
      then have "p = q"
        using inj_snd p(1) q(1) by (meson inj_onD)
      then show "x = y"
        using p q by simp
    qed
    have "(\<lambda>c. the (map_of al c)) ` set (map fst al) =
          (\<lambda>p. the (map_of al (fst p))) ` set al"
      by (simp add: image_image)
    also have "\<dots> = snd ` set al"
      by (rule image_cong) (simp_all add: val)
    finally show "(\<lambda>c. the (map_of al c)) ` set (map fst al) = set (map snd al)"
      by simp
  qed
qed

text \<open>
  Claim C5. When the loop over the character map has resolved 51 entries whose keys and
  values are letters of the alphabet, the values distinct (the keys of an object are
  distinct by themselves), exactly one letter is missing among the keys and exactly one
  among the values; \<^verbatim>\<open>solveFont\<close> returns the resolved entries with that pair added, and the
  map it returns is defined on the 52 letters and is a bijection of the alphabet.
\<close>

theorem gap_completion_bijection:
  assumes "has_fontFamily fnt"
    and "lookup_phase fontMapping (cmap fnt) [] = Inr resolved"
    and "length resolved = TOTAL_LETTERS - 1"
    and "set (map fst resolved) \<subseteq> set ALL_LETTERS"
    and "set (map snd resolved) \<subseteq> set ALL_LETTERS"
    and "distinct (map snd resolved)"
  shows "\<exists>missingKey missingValue.
           set ALL_LETTERS - set (map fst resolved) = {missingKey} \<and>
           set ALL_LETTERS - set (map snd resolved) = {missingValue} \<and>
           solveFont fontMapping (Inr fnt) = Inr (resolved @ [(missingKey, missingValue)]) \<and>
           dom (map_of (resolved @ [(missingKey, missingValue)])) = set ALL_LETTERS \<and>
           bij_betw (\<lambda>c. the (map_of (resolved @ [(missingKey, missingValue)]) c))
             (set ALL_LETTERS) (set ALL_LETTERS)"
proof -
  have dk: "distinct (map fst resolved)"
    using lookup_phase_distinct[OF assms(2)] by simp
  from gap_completion_51[OF dk assms(3-6)]
  obtain k v where k: "set ALL_LETTERS - set (map fst resolved) = {k}"
    and v: "set ALL_LETTERS - set (map snd resolved) = {v}"
    and g: "gap_completion resolved = resolved @ [(k, v)]"
    by blast
  let ?m = "resolved @ [(k, v)]"
  have keys: "set (map fst ?m) = set ALL_LETTERS"
    using k assms(4) by auto
  have vals: "set (map snd ?m) = set ALL_LETTERS"
    using v assms(5) by auto
  have dk': "distinct (map fst ?m)"
    using dk k by auto
  have dv': "distinct (map snd ?m)"
    using assms(6) v by auto
  have s: "solveFont fontMapping (Inr fnt) = Inr ?m"
    using assms(1,2) g by (simp add: solveFont_def)
  have d: "dom (map_of ?m) = set ALL_LETTERS"
    using keys by (simp only: dom_map_of_conv_image_fst set_map)
  have b: "bij_betw (\<lambda>c. the (map_of ?m c)) (set ALL_LETTERS) (set ALL_LETTERS)"
    using map_of_bij[OF dk' dv'] by (simp only: keys vals)
  from k v s d b show ?thesis by blast
qed

lemma set_tl_subset: "set (tl xs) \<subseteq> set xs"
  by (cases xs) auto

lemma ex_resolved_keys: "map fst ex_resolved = butlast ALL_LETTERS"
  by (simp add: ex_resolved_def)

lemma ex_resolved_values: "map snd ex_resolved = tl ALL_LETTERS"
  by (simp add: ex_resolved_def)

theorem gap_completion_bijection_witness:
  "has_fontFamily ex_font51 \<and>
   lookup_phase ex_catalog (cmap ex_font51) [] = Inr ex_resolved \<and>
   length ex_resolved = TOTAL_LETTERS - 1 \<and>
   set (map fst ex_resolved) \<subseteq> set ALL_LETTERS \<and>
   set (map snd ex_resolved) \<subseteq> set ALL_LETTERS \<and>
   distinct (map snd ex_resolved) \<and>
   solveFont ex_catalog (Inr ex_font51) = Inr (ex_resolved @ [(lit ''Z'', lit ''a'')])"
proof -
  have h1: "has_fontFamily ex_font51"
    by (simp add: ex_font51_def)
  have h2: "lookup_phase ex_catalog (cmap ex_font51) [] = Inr ex_resolved"
    unfolding ex_resolved_def by (rule ex_lookup)
  have h3: "length ex_resolved = TOTAL_LETTERS - 1"
    by (simp add: ex_resolved_def TOTAL_LETTERS_def)
  have h4: "set (map fst ex_resolved) \<subseteq> set ALL_LETTERS"
    unfolding ex_resolved_keys by (auto dest: in_set_butlastD)
  have h5: "set (map snd ex_resolved) \<subseteq> set ALL_LETTERS"
    unfolding ex_resolved_values by (rule set_tl_subset)
  have h6: "distinct (map snd ex_resolved)"
    unfolding ex_resolved_values by (rule distinct_tl[OF distinct_ALL_LETTERS])
  from gap_completion_bijection[OF h1 h2 h3 h4 h5 h6]
  obtain k v where k: "set ALL_LETTERS - set (map fst ex_resolved) = {k}"
    and v: "set ALL_LETTERS - set (map snd ex_resolved) = {v}"
    and s: "solveFont ex_catalog (Inr ex_font51) = Inr (ex_resolved @ [(k, v)])"
    by blast
  have "lit ''Z'' \<in> set ALL_LETTERS - set (map fst ex_resolved)"
    unfolding ex_resolved_keys by (simp add: ALL_LETTERS_def FULL_ALPHABET_def lit_def)
  then have k': "k = lit ''Z''"
    using k by auto
  have "lit ''a'' \<in> set ALL_LETTERS - set (map snd ex_resolved)"
    unfolding ex_resolved_values by (simp add: ALL_LETTERS_def FULL_ALPHABET_def lit_def)
  then have v': "v = lit ''a''"
    using v by auto
  show ?thesis
    using h1 h2 h3 h4 h5 h6 s k' v' by simp
qed

text \<open>
  The half of claim C3 that the code keeps. When the font is read and parsed, has a family
  name and a glyph for every mapped code, and no glyph has a letter in the catalog,
  \<^verbatim>\<open>solveFont\<close> returns the empty map and \<^verbatim>\<open>decodeObfuscatedText\<close> returns the text unchanged
  with \<^verbatim>\<open>success\<close> false.
\<close>

lemma decoder_without_hits:
  assumes "has_fontFamily fnt"
    and "\<forall>entry \<in> set (cmap fnt). \<exists>g. snd entry = Some g \<and>
        (realLetter fontMapping g = None \<or> realLetter fontMapping g = Some [])"
  shows "solveFont fontMapping (Inr fnt) = Inr []"
    and "decodeObfuscatedText fontMapping encodedText (Inr fnt) =
        Inr \<lparr>result_text = encodedText, success = False\<rparr>"
proof -
  have l: "lookup_phase fontMapping (cmap fnt) [] = Inr []"
    using assms(2) by (intro lookup_phase_no_hit) simp
  have g: "gap_completion [] = []"
    by (simp add: gap_completion_def TOTAL_LETTERS_52)
  show s: "solveFont fontMapping (Inr fnt) = Inr []"
    using assms(1) l g by (simp add: solveFont_def)
  show "decodeObfuscatedText fontMapping encodedText (Inr fnt) =
        Inr \<lparr>result_text = encodedText, success = False\<rparr>"
    by (simp add: decodeObfuscatedText_def s decode_with_map_def)
qed

lemma ex_font2_without_hits:
  "solveFont (\<lambda>key. None) (Inr ex_font2) = Inr []"
  "decodeObfuscatedText (\<lambda>key. None) (lit ''sCvA'') (Inr ex_font2) =
     Inr \<lparr>result_text = lit ''sCvA'', success = False\<rparr>"
proof -
  have h: "has_fontFamily ex_font2"
    "\<forall>entry \<in> set (cmap ex_font2). \<exists>g. snd entry = Some g \<and>
        (realLetter (\<lambda>key. None) g = None \<or> realLetter (\<lambda>key. None) g = Some [])"
    by (simp_all add: ex_font2_def realLetter_def js_or_def Let_def)
  show "solveFont (\<lambda>key. None) (Inr ex_font2) = Inr []"
    by (rule decoder_without_hits(1)[OF h])
  show "decodeObfuscatedText (\<lambda>key. None) (lit ''sCvA'') (Inr ex_font2) =
     Inr \<lparr>result_text = lit ''sCvA'', success = False\<rparr>"
    by (rule decoder_without_hits(2)[OF h])
qed

text \<open>
  Claim C3 at the input where the code leaves it. When the font file cannot be read or
  parsed, \<^verbatim>\<open>solveFont\<close> throws at its first two lines and \<^verbatim>\<open>decodeObfuscatedText\<close>, which
  calls it outside any \<^verbatim>\<open>try\<close>, throws the same error: for the text \<^verbatim>\<open>sCvA\<close> and a missing file
  no result is returned, where the claim and the caller's comment expect the raw text with
  \<^verbatim>\<open>success\<close> false.
\<close>

theorem decoder_throws_on_unreadable_font:
  "solveFont fontMapping (Inl err) = Inl err \<and>
   decodeObfuscatedText fontMapping encodedText (Inl err) = Inl err \<and>
   decodeObfuscatedText (\<lambda>key. None) (lit ''sCvA'')
     (Inl (Error (lit ''ENOENT: no such file or directory''))) =
   Inl (Error (lit ''ENOENT: no such file or directory'')) \<and>
   decodeObfuscatedText (\<lambda>key. None) (lit ''sCvA'')
     (Inl (Error (lit ''ENOENT: no such file or directory''))) \<noteq>
   Inr \<lparr>result_text = lit ''sCvA'', success = False\<rparr>"
  by (simp add: decodeObfuscatedText_def solveFont_def)

text \<open>What the success flag says, for every map and text.\<close>

lemma decode_loop_flag:
  "snd (decode_loop m t acc flag) \<longleftrightarrow>
     flag \<or> (\<exists>c \<in> set t. is_latin_letter c \<and> (\<exists>v. map_of m [c] = Some v \<and> v \<noteq> []))"
  by (induction m t acc flag rule: decode_loop.induct) (auto split: option.splits)

lemma decode_success_iff:
  "success (decode_with_map m t) \<longleftrightarrow>
     m \<noteq> [] \<and> (\<exists>c \<in> set t. is_latin_letter c \<and> (\<exists>v. map_of m [c] = Some v \<and> v \<noteq> []))"
proof (cases "t = [] \<or> m = []")
  case True
  then show ?thesis by (auto simp: decode_with_map_def)
next
  case False
  obtain d a where l: "decode_loop m t [] False = (d, a)"
    by (cases "decode_loop m t [] False")
  have "a \<longleftrightarrow> (\<exists>c \<in> set t. is_latin_letter c \<and> (\<exists>v. map_of m [c] = Some v \<and> v \<noteq> []))"
    using decode_loop_flag[of m t "[]" False] l by simp
  then show ?thesis
    using False l by (simp add: decode_with_map_def)
qed

text \<open>
  Claim C4 at the input where the code leaves it. With the map \<^verbatim>\<open>{x: 'y'}\<close> and the text
  \<^verbatim>\<open>ab!\<close> no character is substituted, and \<^verbatim>\<open>success\<close> is false as \<open>decode_success_iff\<close>
  says; but the text returned is \<^verbatim>\<open>!\<close>, the input with its letters dropped, not the input.
\<close>

theorem decode_drops_unmapped_letters:
  "decode_with_map [(lit ''x'', lit ''y'')] (lit ''ab!'') =
     \<lparr>result_text = lit ''!'', success = False\<rparr>"
  by (simp add: decode_with_map_def is_latin_letter_def lit_def)

section \<open>Properties of the job orchestrator\<close>

















































end
